theory Spec2Isabelle
  imports Complex_Main "HOL-Library.Char_ord" "HOL-Library.List_Lexorder" "HOL-Library.Multiset"
begin

section \<open>Shift and Expense Tracker: the model of main.cpp\<close>

text \<open>
  Conventions of the embedding.
  \<^item> A C++ \<open>double\<close> is a real number: arithmetic is exact, and NaN, the infinities,
    the negative zero and rounding are outside the model.
  \<^item> A \<open>std::string\<close> is a \<open>string\<close>; \<open>operator<\<close> on it is the lexicographic order
    on unsigned character codes (the order of \<open>Char_ord\<close> and \<open>List_Lexorder\<close>).
  \<^item> \<open>size_t\<close> is \<open>nat\<close>, \<open>int\<close> and \<open>time_t\<close> are \<open>int\<close>; the values the program
    computes with them stay far from the machine bounds, except in \<open>stoi\<close>, whose range
    check is written out.
  \<^item> A thrown exception is the \<open>Inl\<close> of a sum, carrying the exception class and its
    message. Operations that mutate state and may throw return the outcome together
    with the state they leave behind.
  \<^item> The two conversions between \<open>double\<close> and text that the program takes from the
    standard library (\<open>std::stod\<close> and \<open>ostream << double\<close>) are parameters of the
    functions that call them. A model of both on decimal text is given at the end of
    the definitions.
  \<^item> \<open>std::sort\<close> is the sort of the GNU C++ library, written out on the array it
    sorts.
\<close>

subsection \<open>Exceptions and small library functions\<close>

datatype exn = runtime_error string | invalid_argument string | out_of_range string

type_synonym double = real

definition digit_char :: "nat \<Rightarrow> char" where
  "digit_char d = ''0123456789'' ! d"

text \<open>\<open>std::to_string\<close> on an unsigned integer: its decimal digits.\<close>

fun to_string :: "nat \<Rightarrow> string" where
  "to_string n = (if n < 10 then [digit_char n] else to_string (n div 10) @ [digit_char (n mod 10)])"

declare to_string.simps [simp del]

definition isspace :: "char \<Rightarrow> bool" where
  "isspace c \<longleftrightarrow> c \<in> set [CHR '' '', CHR 0x09, CHR 0x0A, CHR 0x0B, CHR 0x0C, CHR 0x0D]"

definition isdigit :: "char \<Rightarrow> bool" where
  "isdigit c \<longleftrightarrow> CHR ''0'' \<le> c \<and> c \<le> CHR ''9''"

definition digit_of :: "char \<Rightarrow> int" where
  "digit_of c = int (of_char c) - 48"

definition dec_value :: "string \<Rightarrow> int" where
  "dec_value ds = foldl (\<lambda>a c. 10 * a + digit_of c) 0 ds"

text \<open>
  \<open>s.substr(pos, n)\<close>. The library throws \<open>out_of_range\<close> when \<open>pos > s.size()\<close>; every
  call of the program has \<open>pos = 0\<close>, or \<open>pos \<le> 8\<close> under the guard \<open>s.size() \<ge> 10\<close>.
\<close>

definition substr :: "string \<Rightarrow> nat \<Rightarrow> nat \<Rightarrow> string" where
  "substr s pos n = take n (drop pos s)"

text \<open>
  \<open>std::stoi\<close> (base 10, through \<open>strtol\<close>): leading white space is skipped, one sign is
  accepted, then the longest run of digits is read and what follows is ignored. No
  digit: \<open>invalid_argument\<close>. A value outside \<open>int\<close>: \<open>out_of_range\<close>.
\<close>

definition stoi :: "string \<Rightarrow> exn + int" where
  "stoi str =
    (let s1 = dropWhile isspace str;
         neg = (s1 \<noteq> [] \<and> hd s1 = CHR ''-'');
         s2 = (if s1 \<noteq> [] \<and> (hd s1 = CHR ''-'' \<or> hd s1 = CHR ''+'') then tl s1 else s1);
         ds = takeWhile isdigit s2
     in if ds = [] then Inl (invalid_argument ''stoi'')
        else (let v = (if neg then - dec_value ds else dec_value ds)
              in if v < - 2147483648 \<or> 2147483647 < v then Inl (out_of_range ''stoi'')
                 else Inr v))"

subsection \<open>Domain: struct Shift\<close>

record Shift =
  date :: string
  hours :: double
  hourlyRate :: double
  "note" :: string

text \<open>The loop of \<open>fromCSV\<close> over the characters of the line, on its two variables.\<close>

fun split_loop :: "string \<Rightarrow> string list \<Rightarrow> string \<Rightarrow> string list \<times> string" where
  "split_loop [] parts cur = (parts, cur)"
| "split_loop (c # cs) parts cur =
     (if c = CHR '','' then split_loop cs (parts @ [cur]) []
      else split_loop cs parts (cur @ [c]))"

definition fromCSV :: "(string \<Rightarrow> exn + double) \<Rightarrow> string \<Rightarrow> nat \<Rightarrow> exn + Shift" where
  "fromCSV stod line lineno =
    (let (parts0, cur) = split_loop line [] [];
         parts = parts0 @ [cur]
     in if length parts < 3 then Inl (runtime_error (''Bad CSV at line '' @ to_string lineno))
        else (case stod (parts ! 1) of
                Inl _ \<Rightarrow> Inl (runtime_error (''Bad number at line '' @ to_string lineno))
              | Inr h \<Rightarrow>
                 (case stod (parts ! 2) of
                    Inl _ \<Rightarrow> Inl (runtime_error (''Bad number at line '' @ to_string lineno))
                  | Inr r \<Rightarrow>
                      Inr \<lparr>date = parts ! 0, hours = h, hourlyRate = r,
                           note = (if 4 \<le> length parts then parts ! 3 else [])\<rparr>)))"

definition toCSV :: "(double \<Rightarrow> string) \<Rightarrow> Shift \<Rightarrow> string" where
  "toCSV put s = date s @ '','' @ put (hours s) @ '','' @ put (hourlyRate s) @ '','' @ note s"

definition pay :: "Shift \<Rightarrow> double" where
  "pay s = hours s * hourlyRate s"

subsection \<open>Tax estimate\<close>

definition estimateTaxYearly :: "double \<Rightarrow> double" where
  "estimateTaxYearly gross =
    (let personalAllowance = 12570;
         basicBandLimit = 50270
     in if gross \<le> personalAllowance then 0
        else (let taxable = gross - personalAllowance;
                  basicBand = max 0 (min taxable (basicBandLimit - personalAllowance));
                  tax1 = 0 + basicBand * 0.2;
                  higherBand = max 0 (taxable - basicBand)
              in tax1 + higherBand * 0.4))"

subsection \<open>Storage: IStorage and FileStorage\<close>

text \<open>
  The file system the program runs on. A path names no file (and then a file can be
  created there or not), or a file with its text and the two permissions the streams
  ask for.
\<close>

datatype disk_file = NoFile (creatable: bool) | File (contents: string) (readable: bool) (writable: bool)

type_synonym filesystem = "string \<Rightarrow> disk_file"

text \<open>\<open>ifstream in(path)\<close>: the text when the stream is good, \<open>None\<close> when \<open>!in\<close>.\<close>

definition ifstream_open :: "disk_file \<Rightarrow> string option" where
  "ifstream_open f = (case f of NoFile _ \<Rightarrow> None | File txt r _ \<Rightarrow> if r then Some txt else None)"

text \<open>\<open>ofstream out(path)\<close>: whether the stream is good.\<close>

definition ofstream_open :: "disk_file \<Rightarrow> bool" where
  "ofstream_open f = (case f of NoFile c \<Rightarrow> c | File _ _ w \<Rightarrow> w)"

text \<open>
  \<open>getline(in, line)\<close> on the text that is left: the line and the rest, or \<open>None\<close> when
  nothing can be extracted. A last line without its newline is still a line.
\<close>

fun getline :: "string \<Rightarrow> (string \<times> string) option" where
  "getline [] = None"
| "getline (c # cs) =
     Some (takeWhile (\<lambda>x. x \<noteq> CHR 0x0A) (c # cs), drop 1 (dropWhile (\<lambda>x. x \<noteq> CHR 0x0A) (c # cs)))"

function read_loop :: "(string \<Rightarrow> exn + double) \<Rightarrow> string \<Rightarrow> Shift list \<Rightarrow> nat \<Rightarrow> exn + Shift list" where
  "read_loop stod inp v lnum =
    (case getline inp of
       None \<Rightarrow> Inr v
     | Some (line, rest) \<Rightarrow>
         (if line = [] then read_loop stod rest v (lnum + 1)
          else (case fromCSV stod line (lnum + 1) of
                  Inl e \<Rightarrow> Inl e
                | Inr s \<Rightarrow> read_loop stod rest (v @ [s]) (lnum + 1))))"
  by pat_completeness auto
termination
proof (relation "measure (\<lambda>(stod, inp, v, lnum). length inp)")
  show "wf (measure (\<lambda>(stod, inp, v, lnum). length inp))"
    by simp
next
  fix stod :: "string \<Rightarrow> exn + double" and inp :: string and v :: "Shift list" and lnum :: nat
    and x2 :: "string \<times> string" and line rest :: string
  assume "getline inp = Some x2" "(line, rest) = x2"
  then have "length rest < length inp"
    using length_dropWhile_le [of "\<lambda>x. x \<noteq> CHR 0x0A" "tl inp"]
    by (cases inp) (auto simp: less_Suc_eq_le)
  then show "((stod, rest, v, lnum + 1), (stod, inp, v, lnum)) \<in> measure (\<lambda>(stod, inp, v, lnum). length inp)"
    by simp
  fix s :: Shift
  show "((stod, rest, v @ [s], lnum + 1), (stod, inp, v, lnum)) \<in> measure (\<lambda>(stod, inp, v, lnum). length inp)"
    using \<open>length rest < length inp\<close> by simp
qed

declare read_loop.simps [simp del]

definition FileStorage_load :: "(string \<Rightarrow> exn + double) \<Rightarrow> string \<Rightarrow> filesystem \<Rightarrow> exn + Shift list" where
  "FileStorage_load stod path fs =
    (case ifstream_open (fs path) of
       None \<Rightarrow> Inr []
     | Some txt \<Rightarrow> read_loop stod txt [] 0)"

definition FileStorage_save ::
  "(double \<Rightarrow> string) \<Rightarrow> string \<Rightarrow> Shift list \<Rightarrow> filesystem \<Rightarrow> exn option \<times> filesystem" where
  "FileStorage_save put path v fs =
    (if \<not> ofstream_open (fs path) then (Some (runtime_error (''Cannot open file for write: '' @ path)), fs)
     else (None, fs(path := File (concat (map (\<lambda>s. toCSV put s @ [CHR 0x0A]) v))
                                 (case fs path of NoFile _ \<Rightarrow> True | File _ r _ \<Rightarrow> r) True)))"

text \<open>
  The storage port: \<open>load\<close> and \<open>save\<close> as the caller sees them, over the state \<open>'w\<close> of
  whatever stands behind the port. Each call returns its outcome and the state it
  leaves.
\<close>

record 'w IStorage =
  load :: "'w \<Rightarrow> (exn + Shift list) \<times> 'w"
  save :: "Shift list \<Rightarrow> 'w \<Rightarrow> exn option \<times> 'w"

definition FileStorage ::
  "(string \<Rightarrow> exn + double) \<Rightarrow> (double \<Rightarrow> string) \<Rightarrow> string \<Rightarrow> filesystem IStorage" where
  "FileStorage stod put path =
    \<lparr>load = (\<lambda>fs. (FileStorage_load stod path fs, fs)), save = FileStorage_save put path\<rparr>"

subsection \<open>Date utilities\<close>

record tm =
  tm_sec :: int
  tm_min :: int
  tm_hour :: int
  tm_mday :: int
  tm_mon :: int
  tm_year :: int

definition parseISO :: "string \<Rightarrow> exn + tm" where
  "parseISO ymd =
    (if 10 \<le> length ymd then
       (case stoi (substr ymd 0 4) of
          Inl e \<Rightarrow> Inl e
        | Inr y \<Rightarrow>
           (case stoi (substr ymd 5 2) of
              Inl e \<Rightarrow> Inl e
            | Inr m \<Rightarrow>
               (case stoi (substr ymd 8 2) of
                  Inl e \<Rightarrow> Inl e
                | Inr d \<Rightarrow>
                    Inr \<lparr>tm_sec = 0, tm_min = 0, tm_hour = 0, tm_mday = d, tm_mon = m - 1,
                         tm_year = y - 1900\<rparr>)))
     else Inr \<lparr>tm_sec = 0, tm_min = 0, tm_hour = 0, tm_mday = 0, tm_mon = 0, tm_year = 0\<rparr>)"

text \<open>
  The days from 1970-01-01 to the given day of the proleptic Gregorian calendar
  (month 1 to 12).
\<close>

definition days_from_civil :: "int \<Rightarrow> int \<Rightarrow> int \<Rightarrow> int" where
  "days_from_civil y m d =
    (let y' = (if m \<le> 2 then y - 1 else y);
         era = y' div 400;
         yoe = y' mod 400;
         doy = (153 * (if 2 < m then m - 3 else m + 9) + 2) div 5 + d - 1;
         doe = yoe * 365 + yoe div 4 - yoe div 100 + doy
     in era * 146097 + doe - 719468)"

text \<open>
  \<open>utc_timegm\<close> hands its argument to the C library's \<open>timegm\<close>, which reads the fields
  as a UTC time and accepts fields out of their ranges: a month outside 0 to 11 moves
  the year, a day of the month counts on from the first of the month.
\<close>

definition utc_timegm :: "tm \<Rightarrow> int" where
  "utc_timegm t =
    (let year = 1900 + tm_year t + tm_mon t div 12;
         mon = tm_mon t mod 12
     in (days_from_civil year (mon + 1) 1 + (tm_mday t - 1)) * 86400
        + tm_hour t * 3600 + tm_min t * 60 + tm_sec t)"

subsection \<open>The library's sort\<close>

text \<open>
  \<open>std::sort(first, last, cmp)\<close> as the GNU C++ library implements it, on the array \<open>xs\<close>
  between the positions \<open>first\<close> and \<open>lst\<close>: an introsort that partitions a range around
  a median of three while the range has more than 16 elements, falls back to a heap
  sort when the depth limit of twice the binary logarithm of the length is used up,
  and leaves the ranges of at most 16 elements to one final insertion sort. The inner
  loops of the library carry no bound check, because an element placed before stops
  them; here they stop at the ends of the array as well.
\<close>

definition iter_swap :: "nat \<Rightarrow> nat \<Rightarrow> 'a list \<Rightarrow> 'a list" where
  "iter_swap i j xs = xs[i := xs ! j, j := xs ! i]"

definition move_median_to_first ::
  "('a \<Rightarrow> 'a \<Rightarrow> bool) \<Rightarrow> nat \<Rightarrow> nat \<Rightarrow> nat \<Rightarrow> nat \<Rightarrow> 'a list \<Rightarrow> 'a list" where
  "move_median_to_first cmp result a b c xs =
    (if cmp (xs ! a) (xs ! b) then
       (if cmp (xs ! b) (xs ! c) then iter_swap result b xs
        else if cmp (xs ! a) (xs ! c) then iter_swap result c xs
        else iter_swap result a xs)
     else if cmp (xs ! a) (xs ! c) then iter_swap result a xs
     else if cmp (xs ! b) (xs ! c) then iter_swap result c xs
     else iter_swap result b xs)"

text \<open>
  The two scans of \<open>__unguarded_partition\<close>: upwards from \<open>first\<close> over the elements
  less than the pivot, downwards from \<open>lst\<close> over the elements the pivot is less than.
\<close>

function scan_up :: "('a \<Rightarrow> 'a \<Rightarrow> bool) \<Rightarrow> 'a list \<Rightarrow> nat \<Rightarrow> nat \<Rightarrow> nat" where
  "scan_up cmp xs pivot first =
    (if first < length xs \<and> cmp (xs ! first) (xs ! pivot) then scan_up cmp xs pivot (first + 1) else first)"
  by pat_completeness auto
termination
  by (relation "measure (\<lambda>(cmp, xs, pivot, first). length xs - first)") auto

declare scan_up.simps [simp del]

fun scan_down :: "('a \<Rightarrow> 'a \<Rightarrow> bool) \<Rightarrow> 'a list \<Rightarrow> nat \<Rightarrow> nat \<Rightarrow> nat" where
  "scan_down cmp xs pivot 0 = 0"
| "scan_down cmp xs pivot (Suc l) =
    (if cmp (xs ! pivot) (xs ! Suc l) then scan_down cmp xs pivot l else Suc l)"

function unguarded_partition ::
  "('a \<Rightarrow> 'a \<Rightarrow> bool) \<Rightarrow> nat \<Rightarrow> nat \<Rightarrow> nat \<Rightarrow> 'a list \<Rightarrow> nat \<times> 'a list" where
  "unguarded_partition cmp first lst pivot xs =
    (let first' = scan_up cmp xs pivot first;
         lst' = scan_down cmp xs pivot (lst - 1)
     in if \<not> first' < lst' then (first', xs)
        else unguarded_partition cmp (first' + 1) lst' pivot (iter_swap first' lst' xs))"
  by pat_completeness auto
termination
proof (relation "measure (\<lambda>(cmp, first, lst, pivot, xs). lst - first)")
  show "wf (measure (\<lambda>(cmp :: 'a \<Rightarrow> 'a \<Rightarrow> bool, first, lst, pivot, xs :: 'a list). lst - first))"
    by simp
next
  fix cmp :: "'a \<Rightarrow> 'a \<Rightarrow> bool" and first lst pivot :: nat and xs :: "'a list" and x xa :: nat
  assume x: "x = scan_up cmp xs pivot first" and xa: "xa = scan_down cmp xs pivot (lst - 1)"
    and lt: "\<not> \<not> x < xa"
  have up: "i \<le> scan_up cmp xs pivot i" for i
  proof (induction cmp xs pivot i rule: scan_up.induct)
    case (1 cmp xs pivot i)
    then show ?case
      by (subst scan_up.simps) auto
  qed
  have down: "scan_down cmp xs pivot l \<le> l" for l
    by (induction l) auto
  show "((cmp, x + 1, xa, pivot, iter_swap x xa xs), (cmp, first, lst, pivot, xs))
      \<in> measure (\<lambda>(cmp, first, lst, pivot, xs). lst - first)"
    using up [of first] down [of "lst - 1"] lt unfolding x xa by simp
qed

declare unguarded_partition.simps [simp del]

definition unguarded_partition_pivot ::
  "('a \<Rightarrow> 'a \<Rightarrow> bool) \<Rightarrow> nat \<Rightarrow> nat \<Rightarrow> 'a list \<Rightarrow> nat \<times> 'a list" where
  "unguarded_partition_pivot cmp first lst xs =
    (let mid = first + (lst - first) div 2
     in unguarded_partition cmp (first + 1) lst first
          (move_median_to_first cmp first (first + 1) mid (lst - 1) xs))"

text \<open>The heap sort of the fallback: \<open>__partial_sort\<close> and what it calls.\<close>

function push_heap :: "('a \<Rightarrow> 'a \<Rightarrow> bool) \<Rightarrow> nat \<Rightarrow> nat \<Rightarrow> nat \<Rightarrow> 'a \<Rightarrow> 'a list \<Rightarrow> 'a list" where
  "push_heap cmp first holeIndex topIndex v xs =
    (let parent = (holeIndex - 1) div 2
     in if topIndex < holeIndex \<and> cmp (xs ! (first + parent)) v
        then push_heap cmp first parent topIndex v (xs[first + holeIndex := xs ! (first + parent)])
        else xs[first + holeIndex := v])"
  by pat_completeness auto
termination
  by (relation "measure (\<lambda>(cmp, first, holeIndex, topIndex, v, xs). holeIndex)") auto

declare push_heap.simps [simp del]

text \<open>The first loop of \<open>__adjust_heap\<close>, on its variables \<open>holeIndex\<close> and \<open>secondChild\<close>.\<close>

function adjust_heap_down ::
  "('a \<Rightarrow> 'a \<Rightarrow> bool) \<Rightarrow> nat \<Rightarrow> nat \<Rightarrow> nat \<Rightarrow> nat \<Rightarrow> 'a list \<Rightarrow> nat \<times> nat \<times> 'a list" where
  "adjust_heap_down cmp first len holeIndex secondChild xs =
    (if secondChild < (len - 1) div 2 then
       (let sc = 2 * (secondChild + 1);
            sc' = (if cmp (xs ! (first + sc)) (xs ! (first + (sc - 1))) then sc - 1 else sc)
        in adjust_heap_down cmp first len sc' sc' (xs[first + holeIndex := xs ! (first + sc')]))
     else (holeIndex, secondChild, xs))"
  by pat_completeness auto
termination
  by (relation "measure (\<lambda>(cmp, first, len, holeIndex, secondChild, xs). (len - 1) div 2 - secondChild)") auto

declare adjust_heap_down.simps [simp del]

definition adjust_heap :: "('a \<Rightarrow> 'a \<Rightarrow> bool) \<Rightarrow> nat \<Rightarrow> nat \<Rightarrow> nat \<Rightarrow> 'a \<Rightarrow> 'a list \<Rightarrow> 'a list" where
  "adjust_heap cmp first holeIndex len v xs =
    (let topIndex = holeIndex;
         (holeIndex1, secondChild1, xs1) = adjust_heap_down cmp first len holeIndex holeIndex xs;
         (holeIndex2, xs2) =
           (if even len \<and> secondChild1 = (len - 2) div 2
            then (let sc = 2 * (secondChild1 + 1)
                  in (sc - 1, xs1[first + holeIndex1 := xs1 ! (first + (sc - 1))]))
            else (holeIndex1, xs1))
     in push_heap cmp first holeIndex2 topIndex v xs2)"

text \<open>The loop of \<open>__make_heap\<close>, from the last parent down to the root.\<close>

fun make_heap_loop :: "('a \<Rightarrow> 'a \<Rightarrow> bool) \<Rightarrow> nat \<Rightarrow> nat \<Rightarrow> nat \<Rightarrow> 'a list \<Rightarrow> 'a list" where
  "make_heap_loop cmp first len 0 xs = adjust_heap cmp first 0 len (xs ! (first + 0)) xs"
| "make_heap_loop cmp first len (Suc parent) xs =
     make_heap_loop cmp first len parent (adjust_heap cmp first (Suc parent) len (xs ! (first + Suc parent)) xs)"

definition make_heap :: "('a \<Rightarrow> 'a \<Rightarrow> bool) \<Rightarrow> nat \<Rightarrow> nat \<Rightarrow> 'a list \<Rightarrow> 'a list" where
  "make_heap cmp first lst xs =
    (if lst - first < 2 then xs
     else (let len = lst - first in make_heap_loop cmp first len ((len - 2) div 2) xs))"

definition pop_heap :: "('a \<Rightarrow> 'a \<Rightarrow> bool) \<Rightarrow> nat \<Rightarrow> nat \<Rightarrow> nat \<Rightarrow> 'a list \<Rightarrow> 'a list" where
  "pop_heap cmp first lst result xs =
    (let v = xs ! result
     in adjust_heap cmp first 0 (lst - first) v (xs[result := xs ! first]))"

function heap_select_loop :: "('a \<Rightarrow> 'a \<Rightarrow> bool) \<Rightarrow> nat \<Rightarrow> nat \<Rightarrow> nat \<Rightarrow> nat \<Rightarrow> 'a list \<Rightarrow> 'a list" where
  "heap_select_loop cmp first middle i lst xs =
    (if i < lst
     then heap_select_loop cmp first middle (i + 1) lst
            (if cmp (xs ! i) (xs ! first) then pop_heap cmp first middle i xs else xs)
     else xs)"
  by pat_completeness auto
termination
  by (relation "measure (\<lambda>(cmp, first, middle, i, lst, xs). lst - i)") auto

declare heap_select_loop.simps [simp del]

definition heap_select :: "('a \<Rightarrow> 'a \<Rightarrow> bool) \<Rightarrow> nat \<Rightarrow> nat \<Rightarrow> nat \<Rightarrow> 'a list \<Rightarrow> 'a list" where
  "heap_select cmp first middle lst xs = heap_select_loop cmp first middle middle lst (make_heap cmp first middle xs)"

function sort_heap :: "('a \<Rightarrow> 'a \<Rightarrow> bool) \<Rightarrow> nat \<Rightarrow> nat \<Rightarrow> 'a list \<Rightarrow> 'a list" where
  "sort_heap cmp first lst xs =
    (if 1 < lst - first then sort_heap cmp first (lst - 1) (pop_heap cmp first (lst - 1) (lst - 1) xs)
     else xs)"
  by pat_completeness auto
termination
  by (relation "measure (\<lambda>(cmp, first, lst, xs). lst - first)") auto

declare sort_heap.simps [simp del]

definition partial_sort :: "('a \<Rightarrow> 'a \<Rightarrow> bool) \<Rightarrow> nat \<Rightarrow> nat \<Rightarrow> nat \<Rightarrow> 'a list \<Rightarrow> 'a list" where
  "partial_sort cmp first middle lst xs = sort_heap cmp first middle (heap_select cmp first middle lst xs)"

text \<open>
  \<open>__introsort_loop\<close>: the call on the upper part, then the loop goes on with the
  lower part.
\<close>

function introsort_loop :: "('a \<Rightarrow> 'a \<Rightarrow> bool) \<Rightarrow> nat \<Rightarrow> nat \<Rightarrow> nat \<Rightarrow> 'a list \<Rightarrow> 'a list" where
  "introsort_loop cmp first lst depth_limit xs =
    (if 16 < lst - first then
       (if depth_limit = 0 then partial_sort cmp first lst lst xs
        else (case unguarded_partition_pivot cmp first lst xs of
                (cutp, xs1) \<Rightarrow>
                  introsort_loop cmp first cutp (depth_limit - 1)
                    (introsort_loop cmp cutp lst (depth_limit - 1) xs1)))
     else xs)"
  by pat_completeness auto
termination
  by (relation "measure (\<lambda>(cmp, first, lst, depth_limit, xs). depth_limit)") auto

declare introsort_loop.simps [simp del]

text \<open>The insertion sorts. \<open>__unguarded_linear_insert\<close> moves the value at \<open>lst\<close> down.\<close>

function unguarded_linear_insert_loop :: "('a \<Rightarrow> 'a \<Rightarrow> bool) \<Rightarrow> 'a \<Rightarrow> nat \<Rightarrow> 'a list \<Rightarrow> 'a list" where
  "unguarded_linear_insert_loop cmp v lst xs =
    (if 0 < lst \<and> cmp v (xs ! (lst - 1))
     then unguarded_linear_insert_loop cmp v (lst - 1) (xs[lst := xs ! (lst - 1)])
     else xs[lst := v])"
  by pat_completeness auto
termination
  by (relation "measure (\<lambda>(cmp, v, lst, xs). lst)") auto

declare unguarded_linear_insert_loop.simps [simp del]

definition unguarded_linear_insert :: "('a \<Rightarrow> 'a \<Rightarrow> bool) \<Rightarrow> nat \<Rightarrow> 'a list \<Rightarrow> 'a list" where
  "unguarded_linear_insert cmp lst xs = unguarded_linear_insert_loop cmp (xs ! lst) lst xs"

text \<open>\<open>std::move_backward(first, lst, d_last)\<close>: the range is copied to end at \<open>d_last\<close>.\<close>

definition move_backward :: "nat \<Rightarrow> nat \<Rightarrow> nat \<Rightarrow> 'a list \<Rightarrow> 'a list" where
  "move_backward first lst d_last xs =
    take (d_last - (lst - first)) xs @ take (lst - first) (drop first xs) @ drop d_last xs"

function insertion_sort_loop :: "('a \<Rightarrow> 'a \<Rightarrow> bool) \<Rightarrow> nat \<Rightarrow> nat \<Rightarrow> nat \<Rightarrow> 'a list \<Rightarrow> 'a list" where
  "insertion_sort_loop cmp first i lst xs =
    (if i < lst
     then insertion_sort_loop cmp first (i + 1) lst
            (if cmp (xs ! i) (xs ! first)
             then (let v = xs ! i in (move_backward first i (i + 1) xs)[first := v])
             else unguarded_linear_insert cmp i xs)
     else xs)"
  by pat_completeness auto
termination
  by (relation "measure (\<lambda>(cmp, first, i, lst, xs). lst - i)") auto

declare insertion_sort_loop.simps [simp del]

definition insertion_sort :: "('a \<Rightarrow> 'a \<Rightarrow> bool) \<Rightarrow> nat \<Rightarrow> nat \<Rightarrow> 'a list \<Rightarrow> 'a list" where
  "insertion_sort cmp first lst xs = (if first = lst then xs else insertion_sort_loop cmp first (first + 1) lst xs)"

function unguarded_insertion_sort :: "('a \<Rightarrow> 'a \<Rightarrow> bool) \<Rightarrow> nat \<Rightarrow> nat \<Rightarrow> 'a list \<Rightarrow> 'a list" where
  "unguarded_insertion_sort cmp i lst xs =
    (if i < lst then unguarded_insertion_sort cmp (i + 1) lst (unguarded_linear_insert cmp i xs) else xs)"
  by pat_completeness auto
termination
  by (relation "measure (\<lambda>(cmp, i, lst, xs). lst - i)") auto

declare unguarded_insertion_sort.simps [simp del]

definition final_insertion_sort :: "('a \<Rightarrow> 'a \<Rightarrow> bool) \<Rightarrow> nat \<Rightarrow> nat \<Rightarrow> 'a list \<Rightarrow> 'a list" where
  "final_insertion_sort cmp first lst xs =
    (if 16 < lst - first
     then unguarded_insertion_sort cmp (first + 16) lst (insertion_sort cmp first (first + 16) xs)
     else insertion_sort cmp first lst xs)"

text \<open>\<open>std::__lg\<close>: the binary logarithm, rounded down.\<close>

fun lg :: "nat \<Rightarrow> nat" where
  "lg n = (if n < 2 then 0 else lg (n div 2) + 1)"

declare lg.simps [simp del]

text \<open>The sort of a whole vector, from \<open>begin()\<close> to \<open>end()\<close>.\<close>

definition std_sort :: "('a \<Rightarrow> 'a \<Rightarrow> bool) \<Rightarrow> 'a list \<Rightarrow> 'a list" where
  "std_sort cmp xs =
    (let first = 0; lst = length xs
     in if first = lst then xs
        else final_insertion_sort cmp first lst (introsort_loop cmp first lst (lg (lst - first) * 2) xs))"

subsection \<open>class Tracker\<close>

record 'w Tracker =
  shifts :: "Shift list"
  storage :: "'w IStorage"

text \<open>The constructor: the outcome of \<open>storage->load()\<close> becomes the collection.\<close>

definition Tracker_new :: "'w IStorage \<Rightarrow> 'w \<Rightarrow> (exn + 'w Tracker) \<times> 'w" where
  "Tracker_new s w =
    (case load s w of
       (Inl e, w') \<Rightarrow> (Inl e, w')
     | (Inr v, w') \<Rightarrow> (Inr \<lparr>shifts = v, storage = s\<rparr>, w'))"

text \<open>
  \<open>add\<close>: the outcome of the save (\<open>None\<close> when it returned), the tracker and the state
  behind the port as the call leaves them.
\<close>

definition add :: "'w Tracker \<Rightarrow> Shift \<Rightarrow> 'w \<Rightarrow> exn option \<times> 'w Tracker \<times> 'w" where
  "add t s w =
    (let t' = t\<lparr>shifts := shifts t @ [s]\<rparr>;
         (r, w') = save (storage t') (shifts t') w
     in (r, t', w'))"

text \<open>\<open>listAllSorted\<close>: the copy of the collection, sorted by \<open>a.date < b.date\<close>.\<close>

definition listAllSorted :: "'w Tracker \<Rightarrow> Shift list" where
  "listAllSorted t = (let v = shifts t in std_sort (\<lambda>a b. date a < date b) v)"

text \<open>
  The \<open>copy_if\<close> of \<open>filterRecentDays\<close>: the predicate is called on the shifts in order,
  and an exception of \<open>parseISO\<close> ends the call.
\<close>

fun copy_if_recent :: "int \<Rightarrow> Shift list \<Rightarrow> Shift list \<Rightarrow> exn + Shift list" where
  "copy_if_recent cutoff [] out = Inr out"
| "copy_if_recent cutoff (s # ss) out =
     (case parseISO (date s) of
        Inl e \<Rightarrow> Inl e
      | Inr t \<Rightarrow> copy_if_recent cutoff ss (if cutoff \<le> utc_timegm t then out @ [s] else out))"

text \<open>\<open>filterRecentDays\<close>, with the value \<open>now\<close> that \<open>time(nullptr)\<close> returns.\<close>

definition filterRecentDays :: "int \<Rightarrow> 'w Tracker \<Rightarrow> int \<Rightarrow> exn + Shift list" where
  "filterRecentDays now t days =
    (let cutoff = now - days * 24 * 3600
     in copy_if_recent cutoff (shifts t) [])"

definition totalPay :: "Shift list \<Rightarrow> double" where
  "totalPay v = foldl (\<lambda>acc s. acc + pay s) 0 v"

definition monthlyTotals :: "'w Tracker \<Rightarrow> (string \<rightharpoonup> double)" where
  "monthlyTotals t =
    foldl (\<lambda>m s. m(substr (date s) 0 7 \<mapsto> (case m (substr (date s) 0 7) of None \<Rightarrow> 0 | Some x \<Rightarrow> x) + pay s))
      Map.empty (shifts t)"

definition countHighPay :: "'w Tracker \<Rightarrow> double \<Rightarrow> nat" where
  "countHighPay t threshold = length (filter (\<lambda>s. threshold \<le> pay s) (shifts t))"

text \<open>
  The member functions as calls on the tracker object. A call runs on the tracker and
  the state behind its storage port and leaves both, together with its outcome: a value
  or a thrown exception. \<open>this_shifts\<close> is the read of the member \<open>shifts\<close>,
  \<open>shifts_push_back\<close> the \<open>push_back\<close> on it, \<open>storage_save\<close> the call of \<open>save\<close> on the
  port, \<open>returns\<close> the return statement, \<open>throws\<close> a throw, and \<open>and_then\<close> runs one step
  after another, an exception ending the call.
\<close>

type_synonym ('a, 'w) member_call = "'w Tracker \<times> 'w \<Rightarrow> (exn + 'a) \<times> 'w Tracker \<times> 'w"

definition returns :: "'a \<Rightarrow> ('a, 'w) member_call" where
  "returns x st = (Inr x, st)"

definition throws :: "exn \<Rightarrow> ('a, 'w) member_call" where
  "throws e st = (Inl e, st)"

definition and_then :: "('a, 'w) member_call \<Rightarrow> ('a \<Rightarrow> ('b, 'w) member_call) \<Rightarrow> ('b, 'w) member_call" where
  "and_then m f st = (case m st of (Inl e, st') \<Rightarrow> (Inl e, st') | (Inr x, st') \<Rightarrow> f x st')"

definition this_shifts :: "(Shift list, 'w) member_call" where
  "this_shifts st = (Inr (shifts (fst st)), st)"

definition shifts_push_back :: "Shift \<Rightarrow> (unit, 'w) member_call" where
  "shifts_push_back s st = (Inr (), (fst st)\<lparr>shifts := shifts (fst st) @ [s]\<rparr>, snd st)"

definition storage_save :: "Shift list \<Rightarrow> (unit, 'w) member_call" where
  "storage_save v st =
    (case save (storage (fst st)) v (snd st) of
       (None, w') \<Rightarrow> (Inr (), fst st, w')
     | (Some e, w') \<Rightarrow> (Inl e, fst st, w'))"

definition Tracker_add :: "Shift \<Rightarrow> (unit, 'w) member_call" where
  "Tracker_add s = and_then (shifts_push_back s) (\<lambda>_. and_then this_shifts storage_save)"

definition Tracker_listAllSorted :: "(Shift list, 'w) member_call" where
  "Tracker_listAllSorted = and_then this_shifts (\<lambda>v. returns (std_sort (\<lambda>a b. date a < date b) v))"

definition Tracker_filterRecentDays :: "int \<Rightarrow> int \<Rightarrow> (Shift list, 'w) member_call" where
  "Tracker_filterRecentDays now days =
    (let cutoff = now - days * 24 * 3600
     in and_then this_shifts
          (\<lambda>v. case copy_if_recent cutoff v [] of Inl e \<Rightarrow> throws e | Inr out \<Rightarrow> returns out))"

definition Tracker_totalPay :: "Shift list \<Rightarrow> (double, 'w) member_call" where
  "Tracker_totalPay v = returns (foldl (\<lambda>acc s. acc + pay s) 0 v)"

definition Tracker_monthlyTotals :: "(string \<rightharpoonup> double, 'w) member_call" where
  "Tracker_monthlyTotals =
    and_then this_shifts
      (\<lambda>v. returns
         (foldl (\<lambda>m s. m(substr (date s) 0 7 \<mapsto> (case m (substr (date s) 0 7) of None \<Rightarrow> 0 | Some x \<Rightarrow> x) + pay s))
            Map.empty v))"

definition Tracker_countHighPay :: "double \<Rightarrow> (nat, 'w) member_call" where
  "Tracker_countHighPay threshold =
    and_then this_shifts (\<lambda>v. returns (length (filter (\<lambda>s. threshold \<le> pay s) v)))"

text \<open>
  The queries a caller can make, and a run of them one after the other: each call
  runs on the tracker and the port state that the call before it left. A call of
  \<open>filterRecentDays\<close> is written with the value the clock gives it and its argument.
\<close>

datatype call =
  ListAllSorted | FilterRecentDays int int | TotalPay "Shift list" | MonthlyTotals | CountHighPay double

datatype answer =
  Shifts "Shift list" | Thrown exn | Amount double | Totals "string \<rightharpoonup> double" | Count nat

definition answered :: "('a \<Rightarrow> answer) \<Rightarrow> ('a, 'w) member_call \<Rightarrow> 'w Tracker \<times> 'w \<Rightarrow> answer \<times> 'w Tracker \<times> 'w" where
  "answered k m st = (case m st of (Inl e, st') \<Rightarrow> (Thrown e, st') | (Inr x, st') \<Rightarrow> (k x, st'))"

fun run :: "call \<Rightarrow> 'w Tracker \<times> 'w \<Rightarrow> answer \<times> 'w Tracker \<times> 'w" where
  "run ListAllSorted st = answered Shifts Tracker_listAllSorted st"
| "run (FilterRecentDays now days) st = answered Shifts (Tracker_filterRecentDays now days) st"
| "run (TotalPay v) st = answered Amount (Tracker_totalPay v) st"
| "run MonthlyTotals st = answered Totals Tracker_monthlyTotals st"
| "run (CountHighPay threshold) st = answered Count (Tracker_countHighPay threshold) st"

fun run_all :: "call list \<Rightarrow> 'w Tracker \<times> 'w \<Rightarrow> answer list \<times> 'w Tracker \<times> 'w" where
  "run_all [] st = ([], st)"
| "run_all (c # cs) st =
     (case run c st of (a, st') \<Rightarrow> (case run_all cs st' of (as, st'') \<Rightarrow> (a # as, st'')))"

subsection \<open>The library's conversions between double and decimal text\<close>

text \<open>
  \<open>ostream << double\<close> with the stream's default settings writes the value as
  \<open>printf\<close> does under \<open>%g\<close> with precision 6: the value is rounded to six significant
  decimal digits; with \<open>X\<close> the decimal exponent of the rounded value, the fixed
  notation is used when \<open>-4 \<le> X < 6\<close> and the scientific notation otherwise; trailing
  zeros of the fraction are removed, and the point with them when no fraction is left.
\<close>

function dec_exp_up :: "real \<Rightarrow> int" where
  "dec_exp_up a = (if 10 \<le> a then dec_exp_up (a / 10) + 1 else 0)"
  by pat_completeness auto
termination
proof (relation "measure (\<lambda>a. nat \<lfloor>a\<rfloor>)")
  show "wf (measure (\<lambda>a::real. nat \<lfloor>a\<rfloor>))"
    by simp
next
  fix a :: real
  assume a: "10 \<le> a"
  then have "a / 10 \<le> a - 9"
    by simp
  then have "\<lfloor>a / 10\<rfloor> \<le> \<lfloor>a - 9\<rfloor>"
    by (rule floor_mono)
  also have "\<lfloor>a - 9\<rfloor> = \<lfloor>a\<rfloor> - 9"
    by linarith
  finally have "\<lfloor>a / 10\<rfloor> < \<lfloor>a\<rfloor>"
    by simp
  moreover have "0 < \<lfloor>a\<rfloor>"
    using a by linarith
  ultimately show "(a / 10, a) \<in> measure (\<lambda>a. nat \<lfloor>a\<rfloor>)"
    by simp
qed

function dec_exp_down :: "real \<Rightarrow> int" where
  "dec_exp_down a = (if 0 < a \<and> a < 1 then dec_exp_down (a * 10) - 1 else 0)"
  by pat_completeness auto
termination
proof (relation "measure (\<lambda>a. nat \<lceil>1 / a\<rceil>)")
  show "wf (measure (\<lambda>a::real. nat \<lceil>1 / a\<rceil>))"
    by simp
next
  fix a :: real
  assume a: "0 < a \<and> a < 1"
  then have one: "1 < 1 / a"
    by simp
  then have two: "2 \<le> \<lceil>1 / a\<rceil>"
    by linarith
  have "1 / (a * 10) = (1 / a) / 10"
    by simp
  also have "\<dots> \<le> real_of_int \<lceil>1 / a\<rceil> / 10"
    by (simp add: divide_right_mono)
  also have "\<dots> \<le> real_of_int (\<lceil>1 / a\<rceil> - 1)"
  proof -
    define n where "n = \<lceil>1 / a\<rceil>"
    have "2 \<le> n"
      using two by (simp only: n_def)
    then have "2 \<le> real_of_int n"
      by linarith
    then have "real_of_int n / 10 \<le> real_of_int (n - 1)"
      by simp
    then show ?thesis
      by (simp only: n_def)
  qed
  finally have "\<lceil>1 / (a * 10)\<rceil> \<le> \<lceil>1 / a\<rceil> - 1"
    by (rule ceiling_le)
  then have "nat \<lceil>1 / (a * 10)\<rceil> < nat \<lceil>1 / a\<rceil>"
    using two by linarith
  then show "(a * 10, a) \<in> measure (\<lambda>a. nat \<lceil>1 / a\<rceil>)"
    by (simp only: in_measure)
qed

declare dec_exp_up.simps [simp del] dec_exp_down.simps [simp del]

text \<open>The decimal exponent of a positive number: \<open>10 ^ X \<le> a < 10 ^ (X + 1)\<close>.\<close>

definition dec_exponent :: "real \<Rightarrow> int" where
  "dec_exponent a = (if 1 \<le> a then dec_exp_up a else dec_exp_down a)"

definition scale10 :: "real \<Rightarrow> int \<Rightarrow> real" where
  "scale10 a k = (if 0 \<le> k then a * 10 ^ nat k else a / 10 ^ nat (- k))"

definition round_half_even :: "real \<Rightarrow> int" where
  "round_half_even x =
    (let f = \<lfloor>x\<rfloor>;
         r = x - of_int f
     in if r < 1 / 2 then f
        else if 1 / 2 < r then f + 1
        else if even f then f
        else f + 1)"

definition strip_zeros :: "string \<Rightarrow> string" where
  "strip_zeros s = rev (dropWhile (\<lambda>c. c = CHR ''0'') (rev s))"

definition exponent_text :: "int \<Rightarrow> string" where
  "exponent_text e =
    (if e < 0 then ''-'' else ''+'') @ (if \<bar>e\<bar> < 10 then ''0'' else []) @ to_string (nat \<bar>e\<bar>)"

text \<open>The text of the six digits \<open>m\<close> (from 100000 to 999999) with decimal exponent \<open>e\<close>.\<close>

definition g_text :: "int \<Rightarrow> int \<Rightarrow> string" where
  "g_text m e =
    (let ds = to_string (nat m)
     in if e < - 4 \<or> 6 \<le> e then
          (let frac = strip_zeros (tl ds)
           in [hd ds] @ (if frac = [] then [] else ''.'' @ frac) @ ''e'' @ exponent_text e)
        else if 0 \<le> e then
          (let frac = strip_zeros (drop (nat e + 1) ds)
           in take (nat e + 1) ds @ (if frac = [] then [] else ''.'' @ frac))
        else ''0.'' @ replicate (nat (- e - 1)) (CHR ''0'') @ strip_zeros ds)"

definition ostream_double :: "double \<Rightarrow> string" where
  "ostream_double x =
    (if x = 0 then ''0''
     else
       (let a = \<bar>x\<bar>;
            e0 = dec_exponent a;
            m0 = round_half_even (scale10 a (5 - e0));
            m = (if m0 = 1000000 then 100000 else m0);
            e = (if m0 = 1000000 then e0 + 1 else e0)
        in (if x < 0 then ''-'' else []) @ g_text m e))"

text \<open>
  \<open>std::stod\<close> on decimal text, in the two steps of the library. The conversion
  (\<open>strtod\<close>): leading white space is skipped, one sign is accepted, then digits with at
  most one point and an exponent are read, and what follows is ignored; the value is
  the number the text denotes. No digit: \<open>invalid_argument\<close>.
\<close>

definition exponent_part :: "string \<Rightarrow> int" where
  "exponent_part s =
    (if s \<noteq> [] \<and> (hd s = CHR ''e'' \<or> hd s = CHR ''E'') then
       (let t = tl s;
            neg = (t \<noteq> [] \<and> hd t = CHR ''-'');
            t2 = (if t \<noteq> [] \<and> (hd t = CHR ''-'' \<or> hd t = CHR ''+'') then tl t else t);
            ds = takeWhile isdigit t2
        in if ds = [] then 0 else if neg then - dec_value ds else dec_value ds)
     else 0)"

definition stod_parse :: "string \<Rightarrow> exn + double" where
  "stod_parse str =
    (let s1 = dropWhile isspace str;
         neg = (s1 \<noteq> [] \<and> hd s1 = CHR ''-'');
         s2 = (if s1 \<noteq> [] \<and> (hd s1 = CHR ''-'' \<or> hd s1 = CHR ''+'') then tl s1 else s1);
         ip = takeWhile isdigit s2;
         s3 = dropWhile isdigit s2;
         point = (s3 \<noteq> [] \<and> hd s3 = CHR ''.'');
         fp = (if point then takeWhile isdigit (tl s3) else []);
         s4 = (if point then dropWhile isdigit (tl s3) else s3)
     in if ip = [] \<and> fp = [] then Inl (invalid_argument ''stod'')
        else (let v = scale10 (real_of_int (dec_value (ip @ fp)) / 10 ^ length fp) (exponent_part s4)
              in Inr (if neg then - v else v)))"

text \<open>
  Then the range check: \<open>out_of_range\<close> when the conversion reports a range error,
  which it does for a value that no finite \<open>double\<close> is nearest to (from
  \<open>2^1024 - 2^970\<close> on) and for a nonzero value below the least normal \<open>double\<close>
  \<open>2^-1022\<close> that is not itself a (subnormal) \<open>double\<close>, a multiple of \<open>2^-1074\<close>.
  The spellings of the infinities and of NaN and the hexadecimal notation, which the
  library also reads, denote no decimal number and are not part of this model.
\<close>

definition strtod_range_error :: "real \<Rightarrow> bool" where
  "strtod_range_error v \<longleftrightarrow>
     2 ^ 1024 - 2 ^ 970 \<le> \<bar>v\<bar> \<or>
     (v \<noteq> 0 \<and> \<bar>v\<bar> < 1 / 2 ^ 1022 \<and> of_int \<lfloor>v * 2 ^ 1074\<rfloor> \<noteq> v * 2 ^ 1074)"

definition stod_dec :: "string \<Rightarrow> exn + double" where
  "stod_dec str =
    (case stod_parse str of
       Inl e \<Rightarrow> Inl e
     | Inr v \<Rightarrow> if strtod_range_error v then Inl (out_of_range ''stod'') else Inr v)"

subsection \<open>Notions of the specification\<close>

text \<open>
  The fields of a line as the specification speaks of them: the pieces between the
  commas.
\<close>

fun csv_fields :: "string \<Rightarrow> string list" where
  "csv_fields [] = [[]]"
| "csv_fields (c # cs) =
     (if c = CHR '','' then [] # csv_fields cs
      else (case csv_fields cs of [] \<Rightarrow> [[c]] | f # fs \<Rightarrow> (c # f) # fs))"

text \<open>
  The lines of a text: the pieces that end at a newline, and what follows the last
  newline when it is not empty.
\<close>

fun text_lines :: "string \<Rightarrow> string list" where
  "text_lines [] = []"
| "text_lines (c # cs) =
     (if c = CHR 0x0A then [] # text_lines cs
      else (case text_lines cs of [] \<Rightarrow> [[c]] | l # ls \<Rightarrow> (c # l) # ls))"

text \<open>The elements of a list with their positions, counted from \<open>k\<close>.\<close>

definition numbered :: "nat \<Rightarrow> 'a list \<Rightarrow> (nat \<times> 'a) list" where
  "numbered k xs = zip [k ..< k + length xs] xs"

text \<open>Decoding numbered lines in order, up to the first one that fails.\<close>

fun decode_all :: "(string \<Rightarrow> exn + double) \<Rightarrow> (nat \<times> string) list \<Rightarrow> exn + Shift list" where
  "decode_all stod [] = Inr []"
| "decode_all stod ((n, l) # r) =
     (case fromCSV stod l n of
        Inl e \<Rightarrow> Inl e
      | Inr s \<Rightarrow> (case decode_all stod r of Inl e \<Rightarrow> Inl e | Inr ss \<Rightarrow> Inr (s # ss)))"

text \<open>
  A text starts with a number: after white space and at most one sign comes a digit.
\<close>

definition has_number :: "string \<Rightarrow> bool" where
  "has_number s =
    (let s1 = dropWhile isspace s;
         s2 = (if s1 \<noteq> [] \<and> (hd s1 = CHR ''-'' \<or> hd s1 = CHR ''+'') then tl s1 else s1)
     in s2 \<noteq> [] \<and> isdigit (hd s2))"

text \<open>
  The number such a text starts with: the digits that follow the white space and the
  sign, read in base ten, negated after a minus sign.
\<close>

definition leading_number :: "string \<Rightarrow> int" where
  "leading_number s =
    (let s1 = dropWhile isspace s
     in if s1 \<noteq> [] \<and> hd s1 = CHR ''-'' then - dec_value (takeWhile isdigit (tl s1))
        else if s1 \<noteq> [] \<and> hd s1 = CHR ''+'' then dec_value (takeWhile isdigit (tl s1))
        else dec_value (takeWhile isdigit s1))"

text \<open>
  The date of a shift as a time: midnight UTC of that day (0 when the date does not
  parse). The UTC day a time falls on, counted from 1970-01-01.
\<close>

definition shift_time :: "Shift \<Rightarrow> int" where
  "shift_time s = (case parseISO (date s) of Inl _ \<Rightarrow> 0 | Inr t \<Rightarrow> utc_timegm t)"

definition utc_day :: "int \<Rightarrow> int" where
  "utc_day x = x div 86400"

text \<open>
  A stable insertion sort, to compare the library's sort with: \<open>insert_back\<close> puts a
  value into a list behind the last element that it is not less than, and
  \<open>insertion_sorted\<close> does so with one value after the other.
\<close>

fun linsert :: "('a \<Rightarrow> 'a \<Rightarrow> bool) \<Rightarrow> 'a \<Rightarrow> 'a list \<Rightarrow> 'a list" where
  "linsert cmp v [] = [v]"
| "linsert cmp v (y # ys) = (if cmp v y then y # linsert cmp v ys else v # y # ys)"

definition insert_back :: "('a \<Rightarrow> 'a \<Rightarrow> bool) \<Rightarrow> 'a \<Rightarrow> 'a list \<Rightarrow> 'a list" where
  "insert_back cmp v p = rev (linsert cmp v (rev p))"

definition insertion_sorted :: "('a \<Rightarrow> 'a \<Rightarrow> bool) \<Rightarrow> 'a list \<Rightarrow> 'a list \<Rightarrow> 'a list" where
  "insertion_sorted cmp p vs = foldl (\<lambda>p v. insert_back cmp v p) p vs"

text \<open>What a query answers on a tracker, as a value of the tracker alone.\<close>

fun answer_of :: "'w Tracker \<Rightarrow> call \<Rightarrow> answer" where
  "answer_of t ListAllSorted = Shifts (listAllSorted t)"
| "answer_of t (FilterRecentDays now days) =
     (case filterRecentDays now t days of Inl e \<Rightarrow> Thrown e | Inr v \<Rightarrow> Shifts v)"
| "answer_of t (TotalPay v) = Amount (totalPay v)"
| "answer_of t MonthlyTotals = Totals (monthlyTotals t)"
| "answer_of t (CountHighPay threshold) = Count (countHighPay t threshold)"

section \<open>Properties\<close>

subsection \<open>Evaluation of the library functions\<close>

lemma isdigit_code [simp]: "isdigit c \<longleftrightarrow> 48 \<le> (of_char c :: nat) \<and> (of_char c :: nat) \<le> 57"
  by (simp add: isdigit_def less_eq_char_def)

lemmas stod_parse_eval = stod_parse_def isspace_def exponent_part_def dec_value_def digit_of_def scale10_def

lemmas stod_dec_eval = stod_dec_def strtod_range_error_def stod_parse_eval

lemmas to_string_eval = to_string.simps digit_char_def

text \<open>The range check of \<open>stod\<close>, above and below the range of \<open>double\<close>.\<close>

lemma stod_dec_overflow: "stod_dec ''1e309'' = Inl (out_of_range ''stod'')"
  by (simp add: stod_dec_eval)

lemma stod_dec_underflow: "stod_dec ''1e-310'' = Inl (out_of_range ''stod'')"
  by (simp add: stod_dec_eval)

lemma ostream_double_eval:
  assumes "x \<noteq> 0" and "dec_exponent \<bar>x\<bar> = e0"
    and "round_half_even (scale10 \<bar>x\<bar> (5 - e0)) = m0" and "m0 \<noteq> 1000000"
  shows "ostream_double x = (if x < 0 then ''-'' else []) @ g_text m0 e0"
  using assms by (simp add: ostream_double_def Let_def)

lemma ostream_double_5_5: "ostream_double (11 / 2) = ''5.5''"
proof -
  have e: "dec_exponent \<bar>11 / 2\<bar> = 0"
    by (simp add: dec_exponent_def dec_exp_up.simps)
  have m: "round_half_even (scale10 \<bar>11 / 2\<bar> (5 - 0)) = 550000"
    by (simp add: round_half_even_def scale10_def Let_def)
  have s: "to_string 550000 = ''550000''"
    by (simp add: to_string_eval)
  have g: "g_text 550000 0 = ''5.5''"
    by (simp add: g_text_def s strip_zeros_def)
  show ?thesis
    using ostream_double_eval [of "11 / 2" 0 550000] e m g by simp
qed

lemma ostream_double_12_5: "ostream_double (25 / 2) = ''12.5''"
proof -
  have e: "dec_exponent \<bar>25 / 2\<bar> = 1"
    by (simp add: dec_exponent_def dec_exp_up.simps)
  have m: "round_half_even (scale10 \<bar>25 / 2\<bar> (5 - 1)) = 125000"
    by (simp add: round_half_even_def scale10_def Let_def)
  have s: "to_string 125000 = ''125000''"
    by (simp add: to_string_eval)
  have g: "g_text 125000 1 = ''12.5''"
    by (simp add: g_text_def s strip_zeros_def)
  show ?thesis
    using ostream_double_eval [of "25 / 2" 1 125000] e m g by simp
qed

subsection \<open>The tax estimate\<close>

text \<open>
  C7. \<open>estimateTaxYearly\<close> is the two-band schedule with allowance 12570, threshold
  50270 and rates 20% and 40%: 0 up to the allowance, 20% of what exceeds the
  allowance up to the threshold, and above the threshold 20% of the whole basic band
  plus 40% of what exceeds the threshold; it is 0 at 12570, 7540 at 50270 and 11540 at
  60270.
\<close>

theorem estimateTaxYearly_bands:
  "(gross \<le> 12570 \<longrightarrow> estimateTaxYearly gross = 0) \<and>
   (12570 \<le> gross \<and> gross \<le> 50270 \<longrightarrow> estimateTaxYearly gross = (gross - 12570) * 0.2) \<and>
   (50270 < gross \<longrightarrow> estimateTaxYearly gross = (50270 - 12570) * 0.2 + (gross - 50270) * 0.4) \<and>
   estimateTaxYearly 12570 = 0 \<and> estimateTaxYearly 50270 = 7540 \<and> estimateTaxYearly 60270 = 11540"
  by (simp add: estimateTaxYearly_def Let_def min_def max_def)

theorem estimateTaxYearly_bands_witness:
  "estimateTaxYearly 10000 = 0 \<and> estimateTaxYearly 30000 = 3486 \<and> estimateTaxYearly 100000 = 27432"
  using estimateTaxYearly_bands [of 10000] estimateTaxYearly_bands [of 30000]
    estimateTaxYearly_bands [of 100000]
  by simp

subsection \<open>Decoding a line\<close>

lemma csv_fields_not_Nil: "csv_fields cs \<noteq> []"
  by (induction cs) (auto split: list.splits)

lemma split_loop_csv_fields:
  "(case split_loop cs parts cur of (p, c) \<Rightarrow> p @ [c]) =
     parts @ (cur @ hd (csv_fields cs)) # tl (csv_fields cs)"
proof (induction cs arbitrary: parts cur)
  case Nil
  then show ?case by simp
next
  case (Cons c cs)
  then show ?case
    using csv_fields_not_Nil [of cs] by (cases "csv_fields cs") (auto split: prod.splits)
qed

lemma parts_csv_fields: "(case split_loop line [] [] of (p, c) \<Rightarrow> p @ [c]) = csv_fields line"
  using split_loop_csv_fields [of line "[]" "[]"] csv_fields_not_Nil [of line] by simp

lemma fromCSV_csv_fields:
  "fromCSV stod line lineno =
    (if length (csv_fields line) < 3 then Inl (runtime_error (''Bad CSV at line '' @ to_string lineno))
     else (case stod (csv_fields line ! 1) of
             Inl _ \<Rightarrow> Inl (runtime_error (''Bad number at line '' @ to_string lineno))
           | Inr h \<Rightarrow>
              (case stod (csv_fields line ! 2) of
                 Inl _ \<Rightarrow> Inl (runtime_error (''Bad number at line '' @ to_string lineno))
               | Inr r \<Rightarrow>
                   Inr \<lparr>date = csv_fields line ! 0, hours = h, hourlyRate = r,
                        note = (if 4 \<le> length (csv_fields line) then csv_fields line ! 3 else [])\<rparr>)))"
proof -
  obtain p c where pc: "split_loop line [] [] = (p, c)"
    by (cases "split_loop line [] []")
  with parts_csv_fields [of line] have "p @ [c] = csv_fields line"
    by simp
  then show ?thesis
    unfolding fromCSV_def pc Let_def prod.case by (simp only:)
qed

lemma length_csv_fields: "length (csv_fields line) = Suc (count_list line (CHR '',''))"
  by (induction line) (auto split: list.splits simp: csv_fields_not_Nil)

text \<open>
  C5. For every line, \<open>fromCSV\<close> throws \<open>runtime_error\<close> "Bad CSV at line N" when the
  line has fewer than 3 comma-delimited fields; it throws \<open>runtime_error\<close> with the
  different message "Bad number at line N" when \<open>stod\<close> throws on field 2 or on field
  3; otherwise it returns the shift of field 1 and the two numbers, whose note is field
  4, and the empty string when the line has 3 fields only.
\<close>

theorem fromCSV_cases:
  "(length (csv_fields line) < 3 \<longrightarrow>
      fromCSV stod line lineno = Inl (runtime_error (''Bad CSV at line '' @ to_string lineno))) \<and>
   (3 \<le> length (csv_fields line) \<and> (isl (stod (csv_fields line ! 1)) \<or> isl (stod (csv_fields line ! 2))) \<longrightarrow>
      fromCSV stod line lineno = Inl (runtime_error (''Bad number at line '' @ to_string lineno))) \<and>
   (3 \<le> length (csv_fields line) \<and> stod (csv_fields line ! 1) = Inr h \<and> stod (csv_fields line ! 2) = Inr r \<longrightarrow>
      fromCSV stod line lineno =
        Inr \<lparr>date = csv_fields line ! 0, hours = h, hourlyRate = r,
             note = (if length (csv_fields line) = 3 then [] else csv_fields line ! 3)\<rparr>) \<and>
   ''Bad CSV at line '' @ to_string lineno \<noteq> ''Bad number at line '' @ to_string lineno"
  by (auto simp: fromCSV_csv_fields split: sum.splits)

theorem fromCSV_cases_witness:
  "fromCSV stod_dec ''2025-10-01,5.5'' 13 = Inl (runtime_error ''Bad CSV at line 13'') \<and>
   fromCSV stod_dec ''2025-10-01,x,12.5'' 3 = Inl (runtime_error ''Bad number at line 3'') \<and>
   fromCSV stod_dec ''2025-10-01,5.5,12.5'' 3 =
     Inr \<lparr>date = ''2025-10-01'', hours = 5.5, hourlyRate = 12.5, note = []\<rparr>"
proof -
  have few: "length (csv_fields ''2025-10-01,5.5'') < 3"
    by simp
  have bad: "3 \<le> length (csv_fields ''2025-10-01,x,12.5'') \<and>
      (isl (stod_dec (csv_fields ''2025-10-01,x,12.5'' ! 1)) \<or>
       isl (stod_dec (csv_fields ''2025-10-01,x,12.5'' ! 2)))"
    by (simp add: stod_dec_eval)
  have good: "3 \<le> length (csv_fields ''2025-10-01,5.5,12.5'') \<and>
      stod_dec (csv_fields ''2025-10-01,5.5,12.5'' ! 1) = Inr 5.5 \<and>
      stod_dec (csv_fields ''2025-10-01,5.5,12.5'' ! 2) = Inr 12.5"
    by (simp add: stod_dec_eval)
  have n13: "to_string 13 = ''13''" and n3: "to_string 3 = ''3''"
    by (simp_all add: to_string_eval)
  show ?thesis
    using fromCSV_cases [of "''2025-10-01,5.5''" stod_dec 13] few
      fromCSV_cases [of "''2025-10-01,x,12.5''" stod_dec 3] bad
      fromCSV_cases [of "''2025-10-01,5.5,12.5''" stod_dec 3 "5.5" "12.5"] good
    by (simp add: n13 n3)
qed

text \<open>
  What \<open>stod\<close> does not throw on is accepted: the text after a leading number is
  ignored.
\<close>

lemma fromCSV_trailing_text:
  "fromCSV stod_dec ''2025-10-01,5.5h,12.5 GBP'' 1 =
     Inr \<lparr>date = ''2025-10-01'', hours = 5.5, hourlyRate = 12.5, note = []\<rparr>"
  by (simp add: fromCSV_csv_fields stod_dec_eval)

text \<open>A number outside the range of \<open>double\<close> is a bad number.\<close>

lemma fromCSV_out_of_range:
  "fromCSV stod_dec ''2025-10-01,1e-310,12.5'' 1 = Inl (runtime_error ''Bad number at line 1'')"
  by (simp add: fromCSV_csv_fields stod_dec_eval to_string_eval)

subsection \<open>Encoding and decoding\<close>



lemma to_string_not_Nil: "to_string n \<noteq> []"
  by (subst to_string.simps) simp




lemma strip_zeros_subset: "set (strip_zeros s) \<subseteq> set s"
  unfolding strip_zeros_def by (auto dest: set_dropWhileD)






text \<open>
  The numbers that the text of the stream gives back. First, what the stream writes
  for six digits \<open>N\<close> at decimal exponent \<open>X\<close>.
\<close>

lemma scale10_powi: "scale10 a k = a * 10 powi k"
  by (cases "0 \<le> k") (simp_all add: scale10_def power_int_def field_simps)

lemma dec_exp_up_bounds:
  "1 \<le> a \<Longrightarrow> 0 \<le> dec_exp_up a \<and> 10 powi dec_exp_up a \<le> a \<and> a < 10 powi (dec_exp_up a + 1)"
proof (induction a rule: dec_exp_up.induct)
  case (1 a)
  show ?case
  proof (cases "10 \<le> a")
    case True
    then have "1 \<le> a / 10"
      by simp
    from "1.IH" [OF True this] True show ?thesis
      by (subst (1 2 3) dec_exp_up.simps) (simp add: power_int_add field_simps)
  next
    case False
    with "1.prems" show ?thesis
      by (subst (1 2 3) dec_exp_up.simps) simp
  qed
qed

lemma dec_exp_down_bounds:
  "0 < a \<Longrightarrow> a < 1 \<Longrightarrow> 10 powi dec_exp_down a \<le> a \<and> a < 10 powi (dec_exp_down a + 1)"
proof (induction a rule: dec_exp_down.induct)
  case (1 a)
  have step: "dec_exp_down a = dec_exp_down (a * 10) - 1"
    using "1.prems" by (subst dec_exp_down.simps) simp
  show ?case
  proof (cases "a * 10 < 1")
    case True
    have "0 < a * 10"
      using "1.prems" by simp
    define e where "e = dec_exp_down (a * 10)"
    from "1.IH" [OF _ \<open>0 < a * 10\<close> True] "1.prems"
    have ih: "10 powi e \<le> a * 10" "a * 10 < 10 powi (e + 1)"
      unfolding e_def by simp_all
    have "(10::real) powi (e - 1) = 10 powi e / 10" "(10::real) powi (e + 1) = 10 powi e * 10"
      by (simp_all add: power_int_diff power_int_add)
    with ih have "10 powi (e - 1) \<le> a \<and> a < 10 powi (e - 1 + 1)"
      by simp
    then show ?thesis
      unfolding step e_def .
  next
    case False
    then have "dec_exp_down (a * 10) = 0"
      by (subst dec_exp_down.simps) simp
    with False "1.prems" show ?thesis
      unfolding step by (simp add: power_int_minus field_simps)
  qed
qed

lemma dec_exponent_bounds:
  assumes "0 < a"
  shows "10 powi dec_exponent a \<le> a \<and> a < 10 powi (dec_exponent a + 1)"
proof (cases "1 \<le> a")
  case True
  then show ?thesis
    using dec_exp_up_bounds [of a] by (simp add: dec_exponent_def)
next
  case False
  then show ?thesis
    using dec_exp_down_bounds [of a] assms by (simp add: dec_exponent_def)
qed

lemma dec_exponent_unique:
  assumes "10 powi X \<le> (a::real)" and "a < 10 powi (X + 1)"
    and "10 powi Y \<le> a" and "a < 10 powi (Y + 1)"
  shows "X = Y"
proof (rule ccontr)
  assume "X \<noteq> Y"
  then consider "X + 1 \<le> Y" | "Y + 1 \<le> X"
    by linarith
  then show False
  proof cases
    case 1
    then have "(10::real) powi (X + 1) \<le> 10 powi Y"
      by (intro power_int_increasing) simp_all
    with assms show False
      by linarith
  next
    case 2
    then have "(10::real) powi (Y + 1) \<le> 10 powi X"
      by (intro power_int_increasing) simp_all
    with assms show False
      by linarith
  qed
qed

lemma dec_exponent_six:
  assumes "100000 \<le> N" and "N < 1000000"
  shows "dec_exponent (of_int N * 10 powi (X - 5)) = X"
proof -
  let ?a = "real_of_int N * 10 powi (X - 5)"
  have p: "(0::real) < 10 powi (X - 5)"
    by simp
  have N: "100000 \<le> real_of_int N" "real_of_int N < 1000000"
    using assms by simp_all
  have pos: "0 < ?a"
    using N p by (intro mult_pos_pos) simp_all
  have "10 powi X = (100000::real) * 10 powi (X - 5)"
    by (simp add: power_int_diff)
  also have "\<dots> \<le> ?a"
    using N(1) p by (intro mult_right_mono) simp_all
  finally have lo: "10 powi X \<le> ?a" .
  have "?a < 1000000 * 10 powi (X - 5)"
    using N(2) p by (intro mult_strict_right_mono) simp_all
  also have "\<dots> = 10 powi (X + 1)"
    by (simp add: power_int_diff power_int_add)
  finally have hi: "?a < 10 powi (X + 1)" .
  from dec_exponent_bounds [OF pos] lo hi show ?thesis
    by (intro dec_exponent_unique [of _ ?a]) simp_all
qed

lemma round_half_even_of_int: "round_half_even (of_int N) = N"
  by (simp add: round_half_even_def)

lemma ostream_double_six:
  assumes "100000 \<le> N" and "N < 1000000"
  shows "ostream_double (of_int N * 10 powi (X - 5)) = g_text N X"
    and "ostream_double (- (of_int N * 10 powi (X - 5))) = ''-'' @ g_text N X"
proof -
  let ?a = "real_of_int N * 10 powi (X - 5)"
  have pos: "0 < ?a"
    using assms by (intro mult_pos_pos) simp_all
  have e: "dec_exponent \<bar>?a\<bar> = X" "dec_exponent \<bar>- ?a\<bar> = X"
    using pos dec_exponent_six [OF assms, of X] by simp_all
  have "scale10 ?a (5 - X) = of_int N * (10 powi (X - 5) * 10 powi (5 - X))"
    by (simp add: scale10_powi)
  also have "10 powi (X - 5) * 10 powi (5 - X) = (1::real)"
    by (simp flip: power_int_add)
  finally have m: "round_half_even (scale10 \<bar>?a\<bar> (5 - X)) = N"
    "round_half_even (scale10 \<bar>- ?a\<bar> (5 - X)) = N"
    using pos by (simp_all add: round_half_even_of_int)
  show "ostream_double ?a = g_text N X"
    using ostream_double_eval [OF _ e(1) m(1)] pos assms by simp
  show "ostream_double (- ?a) = ''-'' @ g_text N X"
    using ostream_double_eval [OF _ e(2) m(2)] pos assms by simp
qed


lemma dec_value_snoc: "dec_value (xs @ [c]) = 10 * dec_value xs + digit_of c"
  by (simp add: dec_value_def)

lemma dec_value_append: "dec_value (xs @ ys) = dec_value xs * 10 ^ length ys + dec_value ys"
proof (induction ys rule: rev_induct)
  case Nil
  then show ?case by (simp add: dec_value_def)
next
  case (snoc c ys)
  have "dec_value (xs @ ys @ [c]) = 10 * dec_value (xs @ ys) + digit_of c"
    using dec_value_snoc [of "xs @ ys" c] by simp
  with snoc show ?case
    by (simp add: dec_value_snoc algebra_simps)
qed

lemma dec_value_zeros: "dec_value (replicate j (CHR ''0'')) = 0"
proof (induction j)
  case 0
  then show ?case by (simp add: dec_value_def)
next
  case (Suc j)
  have "replicate (Suc j) (CHR ''0'') = replicate j (CHR ''0'') @ [CHR ''0'']"
    by (simp add: replicate_append_same)
  with Suc show ?case
    by (simp only: dec_value_snoc) (simp add: digit_of_def)
qed

lemma digit_cases: "d < 10 \<Longrightarrow> d = 0 \<or> d = 1 \<or> d = 2 \<or> d = 3 \<or> d = 4 \<or> d = 5 \<or> d = 6 \<or> d = 7 \<or> d = 8 \<or> d = (9::nat)"
  by arith

lemma digit_of_digit_char: "d < 10 \<Longrightarrow> digit_of (digit_char d) = int d"
  by (drule digit_cases) (elim disjE; simp add: digit_char_def digit_of_def)

lemma isdigit_digit_char: "d < 10 \<Longrightarrow> isdigit (digit_char d)"
  by (drule digit_cases) (elim disjE; simp add: digit_char_def)

lemma dec_value_to_string: "dec_value (to_string n) = int n"
proof (induction n rule: to_string.induct)
  case (1 n)
  show ?case
  proof (cases "n < 10")
    case True
    then show ?thesis
      using digit_of_digit_char [of n] by (subst to_string.simps) (simp add: dec_value_def)
  next
    case False
    have "digit_of (digit_char (n mod 10)) = int (n mod 10)"
      by (rule digit_of_digit_char) simp
    moreover have "int n = 10 * int (n div 10) + int (n mod 10)"
      by (simp add: zdiv_int zmod_int)
    ultimately show ?thesis
      using False "1.IH" by (subst to_string.simps) (simp add: dec_value_snoc)
  qed
qed

lemma isdigit_to_string: "list_all isdigit (to_string n)"
proof (induction n rule: to_string.induct)
  case (1 n)
  show ?case
  proof (cases "n < 10")
    case True
    then show ?thesis
      using isdigit_digit_char [of n] by (subst to_string.simps) (simp del: isdigit_code)
  next
    case False
    have "isdigit (digit_char (n mod 10))"
      by (rule isdigit_digit_char) simp
    with False "1.IH" show ?thesis
      by (subst to_string.simps) (simp del: isdigit_code)
  qed
qed

lemma length_to_string: "10 ^ k \<le> n \<Longrightarrow> n < 10 ^ Suc k \<Longrightarrow> length (to_string n) = Suc k"
proof (induction k arbitrary: n)
  case 0
  then show ?case
    by (subst to_string.simps) simp
next
  case (Suc k)
  have "(10::nat) \<le> 10 ^ Suc k"
    by simp
  with Suc.prems(1) have big: "\<not> n < 10"
    by linarith
  from Suc.prems have "10 ^ k \<le> n div 10" "n div 10 < 10 ^ Suc k"
    by (simp_all add: less_mult_imp_div_less)
  note this big
  with Suc.IH [of "n div 10"] show ?case
    by (subst to_string.simps) simp
qed

lemma takeWhile_eq_replicate:
  "takeWhile (\<lambda>c. c = z) xs = replicate (length (takeWhile (\<lambda>c. c = z) xs)) z"
  by (induction xs) simp_all

lemma strip_zeros_decomp: "\<exists>j. s = strip_zeros s @ replicate j (CHR ''0'')"
proof -
  let ?P = "\<lambda>c. c = CHR ''0''"
  have "rev s = takeWhile ?P (rev s) @ dropWhile ?P (rev s)"
    by simp
  then have "s = rev (dropWhile ?P (rev s)) @ rev (takeWhile ?P (rev s))"
    by (metis rev_append rev_rev_ident)
  also have "rev (takeWhile ?P (rev s)) = replicate (length (takeWhile ?P (rev s))) (CHR ''0'')"
    by (subst takeWhile_eq_replicate) simp
  finally show ?thesis
    unfolding strip_zeros_def by blast
qed

lemma isdigit_strip_zeros: "list_all isdigit s \<Longrightarrow> list_all isdigit (strip_zeros s)"
  using strip_zeros_subset [of s] by (auto simp: list_all_iff simp del: isdigit_code)

lemma frac_value:
  "real_of_int (dec_value (pre @ strip_zeros s)) / 10 ^ length (strip_zeros s) =
   real_of_int (dec_value (pre @ s)) / 10 ^ length s"
proof -
  obtain j where j: "s = strip_zeros s @ replicate j (CHR ''0'')"
    using strip_zeros_decomp by blast
  have "dec_value (pre @ s) = dec_value ((pre @ strip_zeros s) @ replicate j (CHR ''0''))"
    using j by simp
  also have "\<dots> = dec_value (pre @ strip_zeros s) * 10 ^ j"
    by (subst dec_value_append) (simp add: dec_value_zeros)
  finally have v: "dec_value (pre @ s) = dec_value (pre @ strip_zeros s) * 10 ^ j" .
  have "length s = length (strip_zeros s) + j"
    using arg_cong [OF j, of length] by simp
  with v show ?thesis
    by (simp add: power_add)
qed


lemma isdigit_not_special:
  "isdigit c \<Longrightarrow> \<not> isspace c \<and> c \<noteq> CHR ''-'' \<and> c \<noteq> CHR ''+'' \<and> c \<noteq> CHR ''.'' \<and> c \<noteq> CHR ''e''"
  by (auto simp: isspace_def)

lemma takeWhile_digits:
  assumes "list_all isdigit ds" and "r = [] \<or> \<not> isdigit (hd r)"
  shows "takeWhile isdigit (ds @ r) = ds" and "dropWhile isdigit (ds @ r) = r"
proof -
  have all: "\<forall>x\<in>set ds. isdigit x"
    using assms(1) by (simp add: list_all_iff del: isdigit_code)
  have r: "takeWhile isdigit r = []" "dropWhile isdigit r = r"
    by (cases r; use assms(2) in \<open>simp del: isdigit_code\<close>)+
  show "takeWhile isdigit (ds @ r) = ds"
    using all r by (simp add: takeWhile_append2 del: isdigit_code)
  show "dropWhile isdigit (ds @ r) = r"
    using all r by (simp add: dropWhile_append2 del: isdigit_code)
qed

lemma exponent_part_Nil: "exponent_part [] = 0"
  by (simp add: exponent_part_def)

lemma exponent_part_text: "exponent_part (CHR ''e'' # exponent_text e) = e"
proof -
  define ds where "ds = (if \<bar>e\<bar> < 10 then ''0'' else []) @ to_string (nat \<bar>e\<bar>)"
  have digits: "list_all isdigit ds"
    unfolding ds_def using isdigit_to_string [of "nat \<bar>e\<bar>"] by (simp del: isdigit_code) simp
  have ne: "ds \<noteq> []"
    unfolding ds_def by (simp add: to_string_not_Nil)
  then have hd: "isdigit (hd ds)"
    using digits by (cases ds) (simp_all del: isdigit_code)
  have tw: "takeWhile isdigit ds = ds"
    using takeWhile_digits(1) [OF digits, of "[]"] by simp
  have val: "dec_value ds = \<bar>e\<bar>"
    unfolding ds_def using dec_value_append [of "if \<bar>e\<bar> < 10 then ''0'' else []" "to_string (nat \<bar>e\<bar>)"]
    by (simp add: dec_value_to_string) (simp add: dec_value_def digit_of_def)
  have shape: "exponent_text e = (if e < 0 then CHR ''-'' else CHR ''+'') # ds"
    by (simp add: exponent_text_def ds_def)
  show ?thesis
    unfolding exponent_part_def shape using ne isdigit_not_special [OF hd]
    by (simp add: Let_def tw val del: isdigit_code)
qed


text \<open>Then, what \<open>stod\<close> reads from such a text, in each of the three notations.\<close>

lemma stod_parse_digits:
  assumes ip: "list_all isdigit ip" "ip \<noteq> []"
    and r: "r = [] \<or> \<not> isdigit (hd r)"
  shows "stod_parse (ip @ r) =
      (let point = (r \<noteq> [] \<and> hd r = CHR ''.'');
           fp = (if point then takeWhile isdigit (tl r) else []);
           s4 = (if point then dropWhile isdigit (tl r) else r)
       in Inr (scale10 (real_of_int (dec_value (ip @ fp)) / 10 ^ length fp) (exponent_part s4)))"
    and "stod_parse (CHR ''-'' # ip @ r) =
      (let point = (r \<noteq> [] \<and> hd r = CHR ''.'');
           fp = (if point then takeWhile isdigit (tl r) else []);
           s4 = (if point then dropWhile isdigit (tl r) else r)
       in Inr (- scale10 (real_of_int (dec_value (ip @ fp)) / 10 ^ length fp) (exponent_part s4)))"
proof -
  have hd: "isdigit (hd ip)"
    using ip by (cases ip) (simp_all del: isdigit_code)
  note sp = isdigit_not_special [OF hd]
  have nosp: "dropWhile isspace (ip @ r) = ip @ r"
    using sp ip(2) by (cases ip) simp_all
  have tk: "takeWhile isdigit (ip @ r) = ip" "dropWhile isdigit (ip @ r) = r"
    using takeWhile_digits [OF ip(1) r] by simp_all
  have hds: "hd (ip @ r) = hd ip" "ip @ r \<noteq> []"
    using ip(2) by simp_all
  have neg: "(ip @ r \<noteq> [] \<and> hd (ip @ r) = CHR ''-'') = False"
    unfolding hds using sp by simp
  have s2: "(if ip @ r \<noteq> [] \<and> (hd (ip @ r) = CHR ''-'' \<or> hd (ip @ r) = CHR ''+'') then tl (ip @ r) else ip @ r) = ip @ r"
    unfolding hds using sp by simp
  show "stod_parse (ip @ r) =
      (let point = (r \<noteq> [] \<and> hd r = CHR ''.'');
           fp = (if point then takeWhile isdigit (tl r) else []);
           s4 = (if point then dropWhile isdigit (tl r) else r)
       in Inr (scale10 (real_of_int (dec_value (ip @ fp)) / 10 ^ length fp) (exponent_part s4)))"
    unfolding stod_parse_def nosp Let_def s2 tk neg
    using ip(2) by (simp only: if_False simp_thms)
  have minus: "dropWhile isspace (CHR ''-'' # ip @ r) = CHR ''-'' # ip @ r"
    by (simp add: isspace_def)
  have negm: "(CHR ''-'' # ip @ r \<noteq> [] \<and> hd (CHR ''-'' # ip @ r) = CHR ''-'') = True"
    by simp
  have s2m: "(if CHR ''-'' # ip @ r \<noteq> [] \<and> (hd (CHR ''-'' # ip @ r) = CHR ''-'' \<or> hd (CHR ''-'' # ip @ r) = CHR ''+'')
      then tl (CHR ''-'' # ip @ r) else CHR ''-'' # ip @ r) = ip @ r"
    by simp
  show "stod_parse (CHR ''-'' # ip @ r) =
      (let point = (r \<noteq> [] \<and> hd r = CHR ''.'');
           fp = (if point then takeWhile isdigit (tl r) else []);
           s4 = (if point then dropWhile isdigit (tl r) else r)
       in Inr (- scale10 (real_of_int (dec_value (ip @ fp)) / 10 ^ length fp) (exponent_part s4)))"
    unfolding stod_parse_def minus Let_def s2m tk negm
    using ip(2) by (simp only: if_True if_False simp_thms)
qed

lemma stod_parse_shape:
  assumes ip: "list_all isdigit ip" "ip \<noteq> []" and fp: "list_all isdigit fp"
    and t: "t = [] \<or> hd t = CHR ''e''"
  shows "stod_parse (ip @ (if fp = [] then [] else CHR ''.'' # fp) @ t) =
      Inr (scale10 (real_of_int (dec_value (ip @ fp)) / 10 ^ length fp) (exponent_part t))"
    and "stod_parse (CHR ''-'' # ip @ (if fp = [] then [] else CHR ''.'' # fp) @ t) =
      Inr (- scale10 (real_of_int (dec_value (ip @ fp)) / 10 ^ length fp) (exponent_part t))"
proof -
  have t': "t = [] \<or> \<not> isdigit (hd t)"
    using t by auto
  have tdot: "(t \<noteq> [] \<and> hd t = CHR ''.'') = False"
    using t by auto
  have tkf: "takeWhile isdigit (fp @ t) = fp" "dropWhile isdigit (fp @ t) = t"
    using takeWhile_digits [OF fp t'] by simp_all
  let ?r = "(if fp = [] then [] else CHR ''.'' # fp) @ t"
  have r: "?r = [] \<or> \<not> isdigit (hd ?r)"
    using t' by (cases t) auto
  show "stod_parse (ip @ ?r) =
      Inr (scale10 (real_of_int (dec_value (ip @ fp)) / 10 ^ length fp) (exponent_part t))"
    unfolding stod_parse_digits(1) [OF ip r] Let_def
    by (cases "fp = []") (simp_all add: tdot tkf del: isdigit_code)
  show "stod_parse (CHR ''-'' # ip @ ?r) =
      Inr (- scale10 (real_of_int (dec_value (ip @ fp)) / 10 ^ length fp) (exponent_part t))"
    unfolding stod_parse_digits(2) [OF ip r] Let_def
    by (cases "fp = []") (simp_all add: tdot tkf del: isdigit_code)
qed


lemma six_digit_string:
  assumes "100000 \<le> N" and "N < 1000000"
  shows "length (to_string (nat N)) = 6" and "list_all isdigit (to_string (nat N))"
    and "dec_value (to_string (nat N)) = N"
proof -
  have "10 ^ 5 \<le> nat N" "nat N < 10 ^ Suc 5"
    using assms by simp_all
  from length_to_string [OF this] show "length (to_string (nat N)) = 6"
    by simp
  show "list_all isdigit (to_string (nat N))"
    by (rule isdigit_to_string)
  show "dec_value (to_string (nat N)) = N"
    using assms by (simp add: dec_value_to_string)
qed

lemma stod_parse_g_text_sci:
  assumes N: "100000 \<le> N" "N < 1000000" and X: "X < - 4 \<or> 6 \<le> X"
  shows "stod_parse (g_text N X) = Inr (of_int N * 10 powi (X - 5))"
    and "stod_parse (CHR ''-'' # g_text N X) = Inr (- (of_int N * 10 powi (X - 5)))"
proof -
  define ds where "ds = to_string (nat N)"
  note six = six_digit_string [OF N, folded ds_def]
  from six(1) obtain d rest where ds: "ds = d # rest" and rest: "length rest = 5"
    by (cases ds) simp_all
  define frac where "frac = strip_zeros rest"
  have g: "g_text N X = [d] @ (if frac = [] then [] else CHR ''.'' # frac) @ (CHR ''e'' # exponent_text X)"
    using X unfolding g_text_def ds_def [symmetric] Let_def ds frac_def by simp
  have ip: "list_all isdigit [d]" "[d] \<noteq> []" and fp: "list_all isdigit frac"
    using six(2) isdigit_strip_zeros [of rest] unfolding ds frac_def by (simp_all del: isdigit_code)
  have t: "CHR ''e'' # exponent_text X = [] \<or> hd (CHR ''e'' # exponent_text X) = CHR ''e''"
    by simp
  have "real_of_int (dec_value ([d] @ frac)) / 10 ^ length frac =
      real_of_int (dec_value ([d] @ rest)) / 10 ^ length rest"
    unfolding frac_def by (rule frac_value)
  also have "\<dots> = real_of_int N / 10 ^ 5"
    using six(3) unfolding ds rest by simp
  finally have v: "real_of_int (dec_value ([d] @ frac)) / 10 ^ length frac = real_of_int N / 10 ^ 5" .
  have val: "scale10 (real_of_int N / 10 ^ 5) X = of_int N * 10 powi (X - 5)"
    by (simp add: scale10_powi power_int_diff)
  show "stod_parse (g_text N X) = Inr (of_int N * 10 powi (X - 5))"
    unfolding g stod_parse_shape(1) [OF ip fp t] v exponent_part_text val ..
  show "stod_parse (CHR ''-'' # g_text N X) = Inr (- (of_int N * 10 powi (X - 5)))"
    unfolding g stod_parse_shape(2) [OF ip fp t] v exponent_part_text val ..
qed

lemma stod_parse_g_text_fixed:
  assumes N: "100000 \<le> N" "N < 1000000" and X: "0 \<le> X" "X < 6"
  shows "stod_parse (g_text N X) = Inr (of_int N * 10 powi (X - 5))"
    and "stod_parse (CHR ''-'' # g_text N X) = Inr (- (of_int N * 10 powi (X - 5)))"
proof -
  define ds where "ds = to_string (nat N)"
  note six = six_digit_string [OF N, folded ds_def]
  define k where "k = nat X + 1"
  define frac where "frac = strip_zeros (drop k ds)"
  have k: "0 < k" "k \<le> 6" "length (drop k ds) = nat (5 - X)"
    using X six(1) unfolding k_def by simp_all
  have g: "g_text N X = take k ds @ (if frac = [] then [] else CHR ''.'' # frac) @ []"
    using X unfolding g_text_def ds_def [symmetric] Let_def frac_def k_def by simp
  have digits: "\<forall>c\<in>set ds. isdigit c"
    using six(2) by (simp add: list_all_iff del: isdigit_code)
  have ip: "list_all isdigit (take k ds)" "take k ds \<noteq> []"
    using digits k six(1) by (auto simp: list_all_iff dest: in_set_takeD simp del: isdigit_code)
  have "list_all isdigit (drop k ds)"
    using digits by (auto simp: list_all_iff dest: in_set_dropD simp del: isdigit_code)
  then have fp: "list_all isdigit frac"
    unfolding frac_def by (rule isdigit_strip_zeros)
  have t: "([]::string) = [] \<or> hd ([]::string) = CHR ''e''"
    by simp
  have "real_of_int (dec_value (take k ds @ frac)) / 10 ^ length frac =
      real_of_int (dec_value (take k ds @ drop k ds)) / 10 ^ length (drop k ds)"
    unfolding frac_def by (rule frac_value)
  also have "\<dots> = real_of_int N / 10 ^ nat (5 - X)"
    using six(3) k(3) by simp
  finally have v: "real_of_int (dec_value (take k ds @ frac)) / 10 ^ length frac =
      real_of_int N / 10 ^ nat (5 - X)" .
  have "(10::real) powi (X - 5) = inverse (10 ^ nat (5 - X))"
    using X by (simp add: power_int_def power_one_over inverse_eq_divide)
  then have val: "scale10 (real_of_int N / 10 ^ nat (5 - X)) 0 = of_int N * 10 powi (X - 5)"
    by (simp add: scale10_def field_simps)
  show "stod_parse (g_text N X) = Inr (of_int N * 10 powi (X - 5))"
    unfolding g stod_parse_shape(1) [OF ip fp t] v exponent_part_Nil val ..
  show "stod_parse (CHR ''-'' # g_text N X) = Inr (- (of_int N * 10 powi (X - 5)))"
    unfolding g stod_parse_shape(2) [OF ip fp t] v exponent_part_Nil val ..
qed


lemma stod_parse_g_text_small:
  assumes N: "100000 \<le> N" "N < 1000000" and X: "- 4 \<le> X" "X < 0"
  shows "stod_parse (g_text N X) = Inr (of_int N * 10 powi (X - 5))"
    and "stod_parse (CHR ''-'' # g_text N X) = Inr (- (of_int N * 10 powi (X - 5)))"
proof -
  define ds where "ds = to_string (nat N)"
  note six = six_digit_string [OF N, folded ds_def]
  define z where "z = nat (- X - 1)"
  define sd where "sd = strip_zeros ds"
  define fp where "fp = replicate z (CHR ''0'') @ sd"
  have sdv: "real_of_int (dec_value sd) / 10 ^ length sd = real_of_int N / 10 ^ 6"
    using frac_value [of "[]" ds] six(1,3) unfolding sd_def by simp
  have "dec_value sd \<noteq> 0"
  proof
    assume "dec_value sd = 0"
    with sdv N show False
      by simp
  qed
  then have sd: "sd \<noteq> []"
    by (auto simp: dec_value_def)
  then have fpne: "fp \<noteq> []"
    unfolding fp_def by simp
  have g: "g_text N X = ''0'' @ (if fp = [] then [] else CHR ''.'' # fp) @ []"
    using X fpne unfolding g_text_def ds_def [symmetric] Let_def sd_def [symmetric] fp_def z_def by simp
  have ip: "list_all isdigit ''0''" "''0'' \<noteq> []"
    by simp_all
  have "list_all isdigit sd"
    unfolding sd_def using six(2) by (rule isdigit_strip_zeros)
  then have fp: "list_all isdigit fp"
    unfolding fp_def by (auto simp: list_all_iff)
  have t: "([]::string) = [] \<or> hd ([]::string) = CHR ''e''"
    by simp
  have "dec_value (''0'' @ fp) = dec_value (replicate (Suc z) (CHR ''0'') @ sd)"
    unfolding fp_def by simp
  also have "\<dots> = dec_value sd"
    unfolding dec_value_append dec_value_zeros by simp
  finally have "real_of_int (dec_value (''0'' @ fp)) / 10 ^ length fp =
      real_of_int (dec_value sd) / 10 ^ length sd / 10 ^ z"
    unfolding fp_def by (simp add: power_add)
  also have "\<dots> = real_of_int N / 10 ^ (6 + z)"
    unfolding sdv by (simp add: power_add)
  finally have v: "real_of_int (dec_value (''0'' @ fp)) / 10 ^ length fp = real_of_int N / 10 ^ (6 + z)" .
  have "6 + z = nat (5 - X)"
    using X unfolding z_def by simp
  moreover have "(10::real) powi (X - 5) = inverse (10 ^ nat (5 - X))"
    using X by (simp add: power_int_def power_one_over inverse_eq_divide)
  ultimately have val: "scale10 (real_of_int N / 10 ^ (6 + z)) 0 = of_int N * 10 powi (X - 5)"
    by (simp add: scale10_def field_simps)
  show "stod_parse (g_text N X) = Inr (of_int N * 10 powi (X - 5))"
    unfolding g stod_parse_shape(1) [OF ip fp t] v exponent_part_Nil val ..
  show "stod_parse (CHR ''-'' # g_text N X) = Inr (- (of_int N * 10 powi (X - 5)))"
    unfolding g stod_parse_shape(2) [OF ip fp t] v exponent_part_Nil val ..
qed

lemma stod_parse_ostream_double_six:
  assumes "100000 \<le> N" and "N < 1000000"
    and "x = of_int N * 10 powi (X - 5) \<or> x = - (of_int N * 10 powi (X - 5))"
  shows "stod_parse (ostream_double x) = Inr x"
proof -
  consider "X < - 4 \<or> 6 \<le> X" | "0 \<le> X" "X < 6" | "- 4 \<le> X" "X < 0"
    by linarith
  then have "stod_parse (g_text N X) = Inr (of_int N * 10 powi (X - 5)) \<and>
      stod_parse (CHR ''-'' # g_text N X) = Inr (- (of_int N * 10 powi (X - 5)))"
    using stod_parse_g_text_sci [OF assms(1,2)] stod_parse_g_text_fixed [OF assms(1,2)]
      stod_parse_g_text_small [OF assms(1,2)]
    by cases simp_all
  with assms(3) ostream_double_six [OF assms(1,2), of X] show ?thesis
    by auto
qed

lemma stod_parse_ostream_double_0: "stod_parse (ostream_double 0) = Inr 0"
  by (simp add: ostream_double_def stod_parse_eval)

lemma six_digits_normal:
  assumes m: "m \<noteq> 0" "\<bar>m\<bar> < 1000000"
  obtains N e where "100000 \<le> N" "N < 1000000" "real_of_int \<bar>m\<bar> = of_int N * 10 powi (e - 5)"
proof -
  define a where "a = real_of_int \<bar>m\<bar>"
  have a1: "1 \<le> a"
    using m(1) unfolding a_def by linarith
  define n where "n = nat (dec_exp_up a)"
  from dec_exp_up_bounds [OF a1] have nonneg: "0 \<le> dec_exp_up a"
    and b1: "10 powi dec_exp_up a \<le> a" and b2: "a < 10 powi (dec_exp_up a + 1)"
    by simp_all
  have e: "dec_exp_up a = int n"
    unfolding n_def using nonneg by simp
  have e1: "dec_exp_up a + 1 = int (Suc n)"
    unfolding e by simp
  have lo: "10 ^ n \<le> a"
    using b1 unfolding e power_int_of_nat .
  have hi: "a < 10 ^ Suc n"
    using b2 unfolding e1 power_int_of_nat .
  have "real_of_int (10 ^ n) \<le> real_of_int \<bar>m\<bar>"
    using lo unfolding a_def by simp
  then have lo': "10 ^ n \<le> \<bar>m\<bar>"
    by (rule of_int_le_iff [THEN iffD1])
  have "real_of_int \<bar>m\<bar> < real_of_int (10 ^ Suc n)"
    using hi unfolding a_def by simp
  then have hi': "\<bar>m\<bar> < 10 ^ Suc n"
    by (rule of_int_less_iff [THEN iffD1])
  have n5: "n \<le> 5"
  proof (rule ccontr)
    assume "\<not> n \<le> 5"
    then have "(10::int) ^ 6 \<le> 10 ^ n"
      by (intro power_increasing) simp_all
    with lo' m(2) show False
      by simp
  qed
  define N where "N = \<bar>m\<bar> * 10 ^ (5 - n)"
  have "(10::int) ^ 5 = 10 ^ n * 10 ^ (5 - n)"
    using n5 by (simp flip: power_add)
  also have "\<dots> \<le> N"
    unfolding N_def using lo' by (intro mult_right_mono) simp_all
  finally have N1: "100000 \<le> N"
    by simp
  have "N < 10 ^ Suc n * 10 ^ (5 - n)"
    unfolding N_def using hi' by (intro mult_strict_right_mono) simp_all
  also have "\<dots> = (10::int) ^ 6"
    using n5 by (simp flip: power_add power_Suc)
  finally have N2: "N < 1000000"
    by simp
  have "real_of_int N * 10 powi (int n - 5) = real_of_int \<bar>m\<bar> * (10 ^ (5 - n) * 10 powi (int n - 5))"
    unfolding N_def by simp
  also have "10 ^ (5 - n) * 10 powi (int n - 5) = (1::real)"
  proof -
    have "int n - 5 = - int (5 - n)"
      using n5 by simp
    then have "(10::real) powi (int n - 5) = inverse (10 ^ (5 - n))"
      by (simp only: power_int_minus power_int_of_nat)
    then show ?thesis
      by simp
  qed
  finally have "real_of_int \<bar>m\<bar> = of_int N * 10 powi (int n - 5)"
    by simp
  with N1 N2 show thesis
    by (rule that)
qed

lemma stod_parse_ostream_double:
  assumes "\<bar>m\<bar> < 1000000"
  shows "stod_parse (ostream_double (of_int m * 10 powi k)) = Inr (of_int m * 10 powi k)"
proof (cases "m = 0")
  case True
  then show ?thesis
    by (simp add: stod_parse_ostream_double_0)
next
  case False
  from six_digits_normal [OF False assms] obtain N e
    where N: "100000 \<le> N" "N < 1000000" and eq: "real_of_int \<bar>m\<bar> = of_int N * 10 powi (e - 5)"
    by blast
  have "(10::real) powi (e - 5 + k) = 10 powi (e - 5) * 10 powi k"
    by (rule power_int_add) simp
  moreover have "e - 5 + k = e + k - 5"
    by simp
  ultimately have main: "real_of_int \<bar>m\<bar> * 10 powi k = of_int N * 10 powi (e + k - 5)"
    unfolding eq by (simp only: mult.assoc)
  have "real_of_int m * 10 powi k = of_int N * 10 powi (e + k - 5) \<or>
      real_of_int m * 10 powi k = - (of_int N * 10 powi (e + k - 5))"
  proof (cases "0 \<le> m")
    case True
    then have "\<bar>m\<bar> = m"
      by simp
    with main show ?thesis
      by simp
  next
    case False
    then have "\<bar>m\<bar> = - m"
      by simp
    with main have "- (real_of_int m * 10 powi k) = of_int N * 10 powi (e + k - 5)"
      by simp
    then have "real_of_int m * 10 powi k = - (of_int N * 10 powi (e + k - 5))"
      by linarith
    then show ?thesis ..
  qed
  then show ?thesis
    by (rule stod_parse_ostream_double_six [OF N])
qed

text \<open>
  With the range check: a number of at most six significant digits that lies in the
  range of the normal \<open>double\<close> values is read back from its text.
\<close>

lemma stod_dec_in_range:
  assumes "stod_parse str = Inr v" and "v \<noteq> 0 \<Longrightarrow> 1 / 2 ^ 1022 \<le> \<bar>v\<bar> \<and> \<bar>v\<bar> < 2 ^ 1024 - 2 ^ 970"
  shows "stod_dec str = Inr v"
proof -
  have "\<not> strtod_range_error v"
  proof (cases "v = 0")
    case True
    then show ?thesis
      by (simp add: strtod_range_error_def)
  next
    case False
    from assms(2) [OF this] show ?thesis
      unfolding strtod_range_error_def by linarith
  qed
  with assms(1) show ?thesis
    by (simp add: stod_dec_def)
qed

lemma stod_dec_ostream_double:
  assumes "\<bar>m\<bar> < 1000000" and "x = of_int m * 10 powi k"
    and "x \<noteq> 0 \<Longrightarrow> 1 / 2 ^ 1022 \<le> \<bar>x\<bar> \<and> \<bar>x\<bar> < 2 ^ 1024 - 2 ^ 970"
  shows "stod_dec (ostream_double x) = Inr x"
  using stod_parse_ostream_double [OF assms(1), of k] assms(3)
  unfolding assms(2) [symmetric] by (rule stod_dec_in_range)








subsection \<open>Loading the store\<close>

lemma text_lines_Cons:
  "text_lines (c # cs) =
     takeWhile (\<lambda>x. x \<noteq> CHR 0x0A) (c # cs) # text_lines (drop 1 (dropWhile (\<lambda>x. x \<noteq> CHR 0x0A) (c # cs)))"
proof (induction cs arbitrary: c)
  case Nil
  then show ?case by simp
next
  case (Cons d ds)
  show ?case
  proof (cases "c = CHR 0x0A")
    case True
    then show ?thesis by simp
  next
    case False
    then show ?thesis
      using Cons [of d] by simp
  qed
qed

lemma getline_text_lines:
  "getline inp = None \<Longrightarrow> text_lines inp = []"
  "getline inp = Some (line, rest) \<Longrightarrow> text_lines inp = line # text_lines rest"
  by (cases inp; use text_lines_Cons in force)+

lemma numbered_Cons: "numbered k (x # xs) = (k, x) # numbered (Suc k) xs"
  by (simp add: numbered_def upt_rec)

lemma numbered_Nil: "numbered k [] = []"
  by (simp add: numbered_def)

lemma read_loop_decode_all:
  "read_loop stod inp v k =
    (case decode_all stod (filter (\<lambda>(n, l). l \<noteq> []) (numbered (Suc k) (text_lines inp))) of
       Inl e \<Rightarrow> Inl e
     | Inr ss \<Rightarrow> Inr (v @ ss))"
proof (induction stod inp v k rule: read_loop.induct)
  case (1 stod inp v k)
  show ?case
  proof (cases "getline inp")
    case None
    then show ?thesis
      by (subst read_loop.simps) (simp add: getline_text_lines(1) numbered_Nil)
  next
    case (Some lr)
    obtain line rest where lr: "lr = (line, rest)"
      by (cases lr)
    note tl = getline_text_lines(2) [OF Some [unfolded lr]]
    show ?thesis
    proof (cases "line = []")
      case True
      then show ?thesis
        using "1.IH"(1) [OF Some lr [symmetric] True]
        by (subst read_loop.simps) (simp add: Some lr tl numbered_Cons)
    next
      case False
      show ?thesis
      proof (cases "fromCSV stod line (Suc k)")
        case (Inl e)
        then show ?thesis
          using False by (subst read_loop.simps) (simp add: Some lr tl numbered_Cons)
      next
        case (Inr s)
        then show ?thesis
          using False "1.IH"(2) [OF Some lr [symmetric] False, of s]
          by (subst read_loop.simps) (simp add: Some lr tl numbered_Cons split: sum.splits)
      qed
    qed
  qed
qed

text \<open>
  C9 (as amended). For every stored text that can be opened, \<open>load\<close> numbers the lines
  from 1, skips exactly the lines that have no character at all, and decodes every
  other line in file order, ending with the error of the first line that fails to
  decode. Nothing is trimmed: a line of white space only is decoded.
\<close>

theorem load_decodes_nonempty_lines:
  "FileStorage_load stod path fs =
    (case ifstream_open (fs path) of
       None \<Rightarrow> Inr []
     | Some txt \<Rightarrow> decode_all stod (filter (\<lambda>(n, l). l \<noteq> []) (numbered 1 (text_lines txt))))"
  by (simp add: FileStorage_load_def read_loop_decode_all split: option.splits sum.splits)


lemma fromCSV_error:
  "fromCSV stod l n = Inl e \<Longrightarrow>
     e = runtime_error (''Bad CSV at line '' @ to_string n) \<or>
     e = runtime_error (''Bad number at line '' @ to_string n)"
  by (auto simp: fromCSV_def Let_def split: prod.splits if_splits sum.splits)

lemma decode_all_error:
  "decode_all stod nls = Inl e \<Longrightarrow>
     \<exists>n. e = runtime_error (''Bad CSV at line '' @ to_string n) \<or>
         e = runtime_error (''Bad number at line '' @ to_string n)"
proof (induction nls)
  case Nil
  then show ?case by simp
next
  case (Cons nl nls)
  obtain n l where nl: "nl = (n, l)"
    by (cases nl)
  show ?case
  proof (cases "fromCSV stod l n")
    case (Inl e')
    with Cons.prems nl have "e' = e"
      by simp
    with Inl fromCSV_error [of stod l n e] show ?thesis
      by blast
  next
    case (Inr s)
    with Cons.prems nl have "decode_all stod nls = Inl e"
      by (simp split: sum.splits)
    then show ?thesis
      by (rule Cons.IH)
  qed
qed

lemma load_missing_store: "fs path = NoFile c \<Longrightarrow> FileStorage_load stod path fs = Inr []"
  by (simp add: FileStorage_load_def ifstream_open_def)

lemma load_error_is_decode_error:
  assumes "FileStorage_load stod path fs = Inl e"
  shows "\<exists>n. e = runtime_error (''Bad CSV at line '' @ to_string n) \<or>
           e = runtime_error (''Bad number at line '' @ to_string n)"
proof -
  from assms obtain txt' where
    "decode_all stod (filter (\<lambda>(n, l). l \<noteq> []) (numbered 1 (text_lines txt'))) = Inl e"
    by (auto simp: FileStorage_load_def read_loop_decode_all split: option.splits sum.splits)
  then show ?thesis
    by (rule decode_all_error)
qed

text \<open>
  C3. On a store that does not exist \<open>load\<close> returns the empty sequence and no error.
  On a store that exists and cannot be read, where the I/O error is due, \<open>load\<close> returns
  the empty sequence too and the records of the store are taken for none. The guard of
  \<open>load\<close> carries the comment "empty if not exists" and is taken by every stream that
  failed to open; \<open>save\<close>, on a stream that failed to open, throws.
\<close>

theorem load_unreadable_store:
  "FileStorage_load stod_dec ''data/shifts.csv'' (\<lambda>p. NoFile True) = Inr [] \<and>
   FileStorage_load stod_dec ''data/shifts.csv''
     (\<lambda>p. File ''2025-10-01,5.5,12.5,a\<newline>'' False True) = Inr [] \<and>
   fst (FileStorage_save ostream_double ''data/shifts.csv'' []
     (\<lambda>p. File ''2025-10-01,5.5,12.5,a\<newline>'' True False)) =
     Some (runtime_error ''Cannot open file for write: data/shifts.csv'')"
  by (simp add: FileStorage_load_def FileStorage_save_def ifstream_open_def ofstream_open_def)

text \<open>
  C9 as stated fails: the second line of this store is white space only, and \<open>load\<close>
  does not skip it but fails on it.
\<close>

theorem load_blank_line_counterexample:
  "list_all isspace ''   '' \<and>
   FileStorage_load stod_dec ''data/shifts.csv''
     (\<lambda>p. File ''2025-10-01,5.5,12.5,a\<newline>   \<newline>'' True True) =
     Inl (runtime_error ''Bad CSV at line 2'')"
  by (simp add: FileStorage_load_def read_loop_decode_all ifstream_open_def numbered_Nil numbered_Cons fromCSV_csv_fields
      stod_dec_eval to_string_eval)

subsection \<open>Adding a shift\<close>

text \<open>
  C8. For every tracker, whatever stands behind its storage port, and every shift \<open>s\<close>,
  \<open>add\<close> leaves the collection with \<open>s\<close> appended at its end, whether the save
  returned or threw, and its outcome is the outcome of one \<open>save\<close> of the whole new
  collection. With a \<open>FileStorage\<close> behind the port: when the file can be opened for
  writing, its text becomes the encoded lines of all the records in order, each ended
  by a newline, and no other file changes; when it cannot, \<open>runtime_error\<close> "Cannot
  open file for write" reaches the caller, the files are as before, and the collection
  still has \<open>s\<close> appended.
\<close>

theorem add_appends_then_saves:
  "(case add t s w of
      (r, t', w') \<Rightarrow>
        shifts t' = shifts t @ [s] \<and> storage t' = storage t \<and>
        (r, w') = save (storage t) (shifts t @ [s]) w) \<and>
   (storage tf = FileStorage stod put path \<longrightarrow>
      (case add tf s fs of
         (r, t', fs') \<Rightarrow>
           shifts t' = shifts tf @ [s] \<and>
           (if ofstream_open (fs path) then
              r = None \<and>
              contents (fs' path) = concat (map (\<lambda>x. toCSV put x @ [CHR 0x0A]) (shifts tf @ [s])) \<and>
              (\<forall>q. q \<noteq> path \<longrightarrow> fs' q = fs q)
            else r = Some (runtime_error (''Cannot open file for write: '' @ path)) \<and> fs' = fs)))"
proof (intro conjI impI)
  show "case add t s w of
      (r, t', w') \<Rightarrow>
        shifts t' = shifts t @ [s] \<and> storage t' = storage t \<and>
        (r, w') = save (storage t) (shifts t @ [s]) w"
    by (simp add: add_def Let_def split: prod.splits)
next
  assume "storage tf = FileStorage stod put path"
  then show "case add tf s fs of
         (r, t', fs') \<Rightarrow>
           shifts t' = shifts tf @ [s] \<and>
           (if ofstream_open (fs path) then
              r = None \<and>
              contents (fs' path) = concat (map (\<lambda>x. toCSV put x @ [CHR 0x0A]) (shifts tf @ [s])) \<and>
              (\<forall>q. q \<noteq> path \<longrightarrow> fs' q = fs q)
            else r = Some (runtime_error (''Cannot open file for write: '' @ path)) \<and> fs' = fs)"
    by (simp add: add_def Let_def FileStorage_def FileStorage_save_def split: prod.splits)
qed

theorem add_appends_then_saves_witness:
  "(case add \<lparr>shifts = [\<lparr>date = ''2025-10-01'', hours = 5.5, hourlyRate = 12.5, note = ''a''\<rparr>],
              storage = FileStorage stod_dec ostream_double ''data/shifts.csv''\<rparr>
            \<lparr>date = ''2025-10-02'', hours = 12.5, hourlyRate = 5.5, note = []\<rparr>
            (\<lambda>p. File [] True False) of
      (r, t', fs') \<Rightarrow>
        r = Some (runtime_error ''Cannot open file for write: data/shifts.csv'') \<and>
        shifts t' = [\<lparr>date = ''2025-10-01'', hours = 5.5, hourlyRate = 12.5, note = ''a''\<rparr>,
                     \<lparr>date = ''2025-10-02'', hours = 12.5, hourlyRate = 5.5, note = []\<rparr>] \<and>
        fs' = (\<lambda>p. File [] True False)) \<and>
   (case add \<lparr>shifts = [\<lparr>date = ''2025-10-01'', hours = 5.5, hourlyRate = 12.5, note = ''a''\<rparr>],
              storage = FileStorage stod_dec ostream_double ''data/shifts.csv''\<rparr>
            \<lparr>date = ''2025-10-02'', hours = 12.5, hourlyRate = 5.5, note = []\<rparr>
            (\<lambda>p. NoFile True) of
      (r, t', fs') \<Rightarrow>
        r = None \<and>
        contents (fs' ''data/shifts.csv'') = ''2025-10-01,5.5,12.5,a\<newline>2025-10-02,12.5,5.5,\<newline>'')"
proof -
  let ?t = "\<lparr>shifts = [\<lparr>date = ''2025-10-01'', hours = 5.5, hourlyRate = 12.5, note = ''a''\<rparr>],
              storage = FileStorage stod_dec ostream_double ''data/shifts.csv''\<rparr>"
  let ?s = "\<lparr>date = ''2025-10-02'', hours = 12.5, hourlyRate = 5.5, note = []\<rparr>"
  have port: "storage ?t = FileStorage stod_dec ostream_double ''data/shifts.csv''"
    by simp
  have no: "\<not> ofstream_open ((\<lambda>p. File [] True False) ''data/shifts.csv'')"
    and yes: "ofstream_open ((\<lambda>p. NoFile True) ''data/shifts.csv'')"
    by (simp_all add: ofstream_open_def)
  note file_part = add_appends_then_saves [THEN conjunct2, rule_format, OF port]
  have one: "case add ?t ?s (\<lambda>p. File [] True False) of
      (r, t', fs') \<Rightarrow>
        r = Some (runtime_error ''Cannot open file for write: data/shifts.csv'') \<and>
        shifts t' = [\<lparr>date = ''2025-10-01'', hours = 5.5, hourlyRate = 12.5, note = ''a''\<rparr>,
                     \<lparr>date = ''2025-10-02'', hours = 12.5, hourlyRate = 5.5, note = []\<rparr>] \<and>
        fs' = (\<lambda>p. File [] True False)"
  proof -
    obtain r t' fs' where eq: "add ?t ?s (\<lambda>p. File [] True False) = (r, t', fs')"
      by (cases "add ?t ?s (\<lambda>p. File [] True False)")
    show ?thesis
      using file_part [of ?s "\<lambda>p. File [] True False"] no unfolding eq by simp
  qed
  have two: "case add ?t ?s (\<lambda>p. NoFile True) of
      (r, t', fs') \<Rightarrow>
        r = None \<and>
        contents (fs' ''data/shifts.csv'') = ''2025-10-01,5.5,12.5,a\<newline>2025-10-02,12.5,5.5,\<newline>''"
  proof -
    obtain r t' fs' where eq: "add ?t ?s (\<lambda>p. NoFile True) = (r, t', fs')"
      by (cases "add ?t ?s (\<lambda>p. NoFile True)")
    show ?thesis
      using file_part [of ?s "\<lambda>p. NoFile True"] yes unfolding eq
      by (simp add: toCSV_def ostream_double_5_5 ostream_double_12_5)
  qed
  from one two show ?thesis
    by (rule conjI)
qed

subsection \<open>Parsing a date\<close>

lemma digit_of_bounds: "isdigit c \<Longrightarrow> 0 \<le> digit_of c \<and> digit_of c \<le> 9"
  by (auto simp: digit_of_def)

lemma dec_value_acc_bounds:
  "list_all isdigit ds \<Longrightarrow> 0 \<le> a \<Longrightarrow>
     0 \<le> foldl (\<lambda>a c. 10 * a + digit_of c) a ds \<and>
     foldl (\<lambda>a c. 10 * a + digit_of c) a ds < (a + 1) * 10 ^ length ds"
proof (induction ds arbitrary: a)
  case Nil
  then show ?case by simp
next
  case (Cons d ds)
  from Cons.prems have d: "0 \<le> digit_of d" "digit_of d \<le> 9" and ds: "list_all isdigit ds"
    using digit_of_bounds [of d] by (simp_all del: isdigit_code)
  let ?a = "10 * a + digit_of d"
  have a0: "0 \<le> ?a"
    using Cons.prems(2) d by simp
  from Cons.IH [OF ds a0]
  have ih: "0 \<le> foldl (\<lambda>a c. 10 * a + digit_of c) ?a ds"
    "foldl (\<lambda>a c. 10 * a + digit_of c) ?a ds < (?a + 1) * 10 ^ length ds"
    by simp_all
  have "(?a + 1) * 10 ^ length ds \<le> (10 * (a + 1)) * 10 ^ length ds"
    using d by (intro mult_right_mono) simp_all
  with ih(2) have "foldl (\<lambda>a c. 10 * a + digit_of c) ?a ds < (10 * (a + 1)) * 10 ^ length ds"
    by (rule less_le_trans)
  also have "(10 * (a + 1)) * 10 ^ length ds = (a + 1) * 10 ^ length (d # ds)"
    by simp
  finally show ?case
    using ih(1) by simp
qed

lemma dec_value_bounds:
  "list_all isdigit ds \<Longrightarrow> 0 \<le> dec_value ds \<and> dec_value ds < 10 ^ length ds"
  using dec_value_acc_bounds [of ds 0] by (simp add: dec_value_def)

lemma stoi_short:
  assumes "length s \<le> 9"
  shows "stoi s = (if has_number s then stoi s else Inl (invalid_argument ''stoi''))"
    and "has_number s \<Longrightarrow> \<not> isl (stoi s)"
proof -
  define s1 where "s1 = dropWhile isspace s"
  define s2 where "s2 = (if s1 \<noteq> [] \<and> (hd s1 = CHR ''-'' \<or> hd s1 = CHR ''+'') then tl s1 else s1)"
  define ds where "ds = takeWhile isdigit s2"
  have len: "length ds \<le> 9"
  proof -
    have "length ds \<le> length s2"
      unfolding ds_def by (rule length_takeWhile_le)
    also have "length s2 \<le> length s1"
      unfolding s2_def by simp
    also have "length s1 \<le> length s"
      unfolding s1_def by (rule length_dropWhile_le)
    finally show ?thesis
      using assms by simp
  qed
  have "list_all isdigit ds"
    unfolding ds_def list_all_iff by (auto dest: set_takeWhileD)
  from dec_value_bounds [OF this] have b: "0 \<le> dec_value ds" "dec_value ds < 10 ^ length ds"
    by simp_all
  have "(10::int) ^ length ds \<le> 10 ^ 9"
    using len by (intro power_increasing) simp_all
  with b have range: "dec_value ds < 1000000000"
    by simp
  have hn: "has_number s \<longleftrightarrow> ds \<noteq> []"
    unfolding has_number_def ds_def s1_def [symmetric] Let_def s2_def [symmetric]
    by (cases s2) (simp_all del: isdigit_code)
  have st: "stoi s = (if ds = [] then Inl (invalid_argument ''stoi'')
        else (let v = (if s1 \<noteq> [] \<and> hd s1 = CHR ''-'' then - dec_value ds else dec_value ds)
              in if v < - 2147483648 \<or> 2147483647 < v then Inl (out_of_range ''stoi'') else Inr v))"
    unfolding stoi_def s1_def [symmetric] Let_def s2_def [symmetric] ds_def [symmetric] by simp
  show "stoi s = (if has_number s then stoi s else Inl (invalid_argument ''stoi''))"
    using hn st by simp
  show "has_number s \<Longrightarrow> \<not> isl (stoi s)"
    using hn st b range by (simp add: Let_def)
qed

lemma length_substr: "length (substr s pos n) \<le> n"
  by (simp add: substr_def)

lemma stoi_substr:
  assumes "n \<le> 9"
  shows "isl (stoi (substr s pos n)) \<longleftrightarrow> \<not> has_number (substr s pos n)"
    and "stoi (substr s pos n) = Inl e \<Longrightarrow> e = invalid_argument ''stoi''"
proof -
  have len: "length (substr s pos n) \<le> 9"
    using length_substr [of s pos n] assms by simp
  show "isl (stoi (substr s pos n)) \<longleftrightarrow> \<not> has_number (substr s pos n)"
    using stoi_short [OF len] by (cases "has_number (substr s pos n)") auto
  show "stoi (substr s pos n) = Inl e \<Longrightarrow> e = invalid_argument ''stoi''"
    using stoi_short [OF len] by (cases "has_number (substr s pos n)") auto
qed

lemma parseISO_failure:
  "10 \<le> length ymd \<Longrightarrow>
     (isl (parseISO ymd) \<longleftrightarrow>
        \<not> (has_number (substr ymd 0 4) \<and> has_number (substr ymd 5 2) \<and> has_number (substr ymd 8 2)))"
  "isl (parseISO ymd) \<Longrightarrow> parseISO ymd = Inl (invalid_argument ''stoi'')"
proof -
  assume "10 \<le> length ymd"
  then show "isl (parseISO ymd) \<longleftrightarrow>
         \<not> (has_number (substr ymd 0 4) \<and> has_number (substr ymd 5 2) \<and> has_number (substr ymd 8 2))"
    using stoi_substr(1) [of 4 ymd 0] stoi_substr(1) [of 2 ymd 5] stoi_substr(1) [of 2 ymd 8]
    by (auto simp: parseISO_def split: sum.splits)
next
  assume "isl (parseISO ymd)"
  then show "parseISO ymd = Inl (invalid_argument ''stoi'')"
    using stoi_substr(2) [of 4 ymd 0] stoi_substr(2) [of 2 ymd 5] stoi_substr(2) [of 2 ymd 8]
    by (auto simp: parseISO_def split: sum.splits if_splits)
qed

lemma stoi_leading_number:
  assumes "length s \<le> 9" and "has_number s"
  shows "stoi s = Inr (leading_number s)"
proof -
  define s1 where "s1 = dropWhile isspace s"
  define s2 where "s2 = (if s1 \<noteq> [] \<and> (hd s1 = CHR ''-'' \<or> hd s1 = CHR ''+'') then tl s1 else s1)"
  define ds where "ds = takeWhile isdigit s2"
  have len: "length ds \<le> 9"
  proof -
    have "length ds \<le> length s2"
      unfolding ds_def by (rule length_takeWhile_le)
    also have "length s2 \<le> length s1"
      unfolding s2_def by simp
    also have "length s1 \<le> length s"
      unfolding s1_def by (rule length_dropWhile_le)
    finally show ?thesis
      using assms by simp
  qed
  have "list_all isdigit ds"
    unfolding ds_def list_all_iff by (auto dest: set_takeWhileD)
  from dec_value_bounds [OF this] have b: "0 \<le> dec_value ds" "dec_value ds < 10 ^ length ds"
    by simp_all
  have "(10::int) ^ length ds \<le> 10 ^ 9"
    using len by (intro power_increasing) simp_all
  with b have range: "dec_value ds < 1000000000"
    by simp
  have hn: "ds \<noteq> []"
    using assms(2)
    unfolding has_number_def ds_def s1_def [symmetric] Let_def s2_def [symmetric]
    by (cases s2) (simp_all del: isdigit_code)
  have st: "stoi s = (if ds = [] then Inl (invalid_argument ''stoi'')
        else (let v = (if s1 \<noteq> [] \<and> hd s1 = CHR ''-'' then - dec_value ds else dec_value ds)
              in if v < - 2147483648 \<or> 2147483647 < v then Inl (out_of_range ''stoi'') else Inr v))"
    unfolding stoi_def s1_def [symmetric] Let_def s2_def [symmetric] ds_def [symmetric] by simp
  have ln: "leading_number s = (if s1 \<noteq> [] \<and> hd s1 = CHR ''-'' then - dec_value ds else dec_value ds)"
    unfolding leading_number_def s1_def [symmetric] Let_def ds_def s2_def by simp
  show ?thesis
    using hn st b range ln by (simp add: Let_def)
qed

lemma parseISO_fields:
  assumes "10 \<le> length ymd"
    and "has_number (substr ymd 0 4)" and "has_number (substr ymd 5 2)" and "has_number (substr ymd 8 2)"
  shows "parseISO ymd =
    Inr \<lparr>tm_sec = 0, tm_min = 0, tm_hour = 0, tm_mday = leading_number (substr ymd 8 2),
         tm_mon = leading_number (substr ymd 5 2) - 1, tm_year = leading_number (substr ymd 0 4) - 1900\<rparr>"
proof -
  have "stoi (substr ymd 0 4) = Inr (leading_number (substr ymd 0 4))"
    using length_substr [of ymd 0 4] assms(2) by (intro stoi_leading_number) simp_all
  moreover have "stoi (substr ymd 5 2) = Inr (leading_number (substr ymd 5 2))"
    using length_substr [of ymd 5 2] assms(3) by (intro stoi_leading_number) simp_all
  moreover have "stoi (substr ymd 8 2) = Inr (leading_number (substr ymd 8 2))"
    using length_substr [of ymd 8 2] assms(4) by (intro stoi_leading_number) simp_all
  ultimately show ?thesis
    using assms(1) by (simp add: parseISO_def)
qed

lemma leading_number_digits:
  assumes "ds \<noteq> []" and "list_all isdigit ds"
  shows "has_number ds" and "leading_number ds = dec_value ds"
proof -
  obtain c cs where ds: "ds = c # cs"
    using assms(1) by (cases ds) simp_all
  with assms(2) have c: "isdigit c"
    by simp
  then have sp: "\<not> isspace c" "c \<noteq> CHR ''-''" "c \<noteq> CHR ''+''"
    using isdigit_not_special [of c] by auto
  have tw: "takeWhile isdigit ds = ds"
    using assms(2) by (simp add: takeWhile_eq_all_conv list_all_iff del: isdigit_code)
  show "has_number ds"
    using c sp by (simp add: has_number_def ds del: isdigit_code)
  show "leading_number ds = dec_value ds"
    using sp tw by (simp add: leading_number_def ds del: isdigit_code)
qed

lemma parseISO_digits:
  assumes "list_all isdigit [y1, y2, y3, y4, m1, m2, d1, d2]"
  shows "parseISO ([y1, y2, y3, y4, p, m1, m2, q, d1, d2] @ r) =
    Inr \<lparr>tm_sec = 0, tm_min = 0, tm_hour = 0, tm_mday = dec_value [d1, d2],
         tm_mon = dec_value [m1, m2] - 1, tm_year = dec_value [y1, y2, y3, y4] - 1900\<rparr>"
proof -
  let ?s = "[y1, y2, y3, y4, p, m1, m2, q, d1, d2] @ r"
  have s: "substr ?s 0 4 = [y1, y2, y3, y4]" "substr ?s 5 2 = [m1, m2]" "substr ?s 8 2 = [d1, d2]"
    by (simp_all add: substr_def)
  have a: "list_all isdigit [y1, y2, y3, y4]" "list_all isdigit [m1, m2]" "list_all isdigit [d1, d2]"
    using assms by (simp_all del: isdigit_code)
  show ?thesis
    using parseISO_fields [of ?s] leading_number_digits [OF _ a(1)] leading_number_digits [OF _ a(2)]
      leading_number_digits [OF _ a(3)]
    unfolding s by simp
qed

text \<open>
  C6 (as amended). \<open>parseISO\<close> checks the length only for strings shorter than 10
  characters, and turns every one of them silently into zero-filled date fields. On a
  string of 10 or more characters it throws, and what it throws is the
  \<open>invalid_argument\<close> of \<open>stoi\<close>, exactly when the year part (characters 0 to 3), the
  month part (5 and 6) or the day part (8 and 9) does not start with a number;
  otherwise it returns the parsed fields: the year less 1900, the month less 1 and the
  day of the numbers the three parts start with, at time 00:00:00. On a date
  \<open>yyyy-mm-dd\<close> of digits these are the numbers the digits spell.
\<close>

theorem parseISO_outcomes:
  "(length ymd < 10 \<longrightarrow>
      parseISO ymd = Inr \<lparr>tm_sec = 0, tm_min = 0, tm_hour = 0, tm_mday = 0, tm_mon = 0, tm_year = 0\<rparr>) \<and>
   (10 \<le> length ymd \<longrightarrow>
      parseISO ymd =
        (if has_number (substr ymd 0 4) \<and> has_number (substr ymd 5 2) \<and> has_number (substr ymd 8 2)
         then Inr \<lparr>tm_sec = 0, tm_min = 0, tm_hour = 0, tm_mday = leading_number (substr ymd 8 2),
                   tm_mon = leading_number (substr ymd 5 2) - 1,
                   tm_year = leading_number (substr ymd 0 4) - 1900\<rparr>
         else Inl (invalid_argument ''stoi''))) \<and>
   (list_all isdigit [y1, y2, y3, y4, m1, m2, d1, d2] \<longrightarrow>
      parseISO ([y1, y2, y3, y4, p, m1, m2, q, d1, d2] @ r) =
        Inr \<lparr>tm_sec = 0, tm_min = 0, tm_hour = 0, tm_mday = dec_value [d1, d2],
             tm_mon = dec_value [m1, m2] - 1, tm_year = dec_value [y1, y2, y3, y4] - 1900\<rparr>)"
proof (intro conjI impI)
  assume "length ymd < 10"
  then show "parseISO ymd = Inr \<lparr>tm_sec = 0, tm_min = 0, tm_hour = 0, tm_mday = 0, tm_mon = 0, tm_year = 0\<rparr>"
    by (simp add: parseISO_def)
next
  assume len: "10 \<le> length ymd"
  show "parseISO ymd =
        (if has_number (substr ymd 0 4) \<and> has_number (substr ymd 5 2) \<and> has_number (substr ymd 8 2)
         then Inr \<lparr>tm_sec = 0, tm_min = 0, tm_hour = 0, tm_mday = leading_number (substr ymd 8 2),
                   tm_mon = leading_number (substr ymd 5 2) - 1,
                   tm_year = leading_number (substr ymd 0 4) - 1900\<rparr>
         else Inl (invalid_argument ''stoi''))"
  proof (cases "has_number (substr ymd 0 4) \<and> has_number (substr ymd 5 2) \<and> has_number (substr ymd 8 2)")
    case True
    then show ?thesis
      using parseISO_fields [OF len] by simp
  next
    case False
    then have "isl (parseISO ymd)"
      using parseISO_failure(1) [OF len] by simp
    then have "parseISO ymd = Inl (invalid_argument ''stoi'')"
      by (rule parseISO_failure(2))
    with False show ?thesis
      by simp
  qed
next
  assume "list_all isdigit [y1, y2, y3, y4, m1, m2, d1, d2]"
  then show "parseISO ([y1, y2, y3, y4, p, m1, m2, q, d1, d2] @ r) =
        Inr \<lparr>tm_sec = 0, tm_min = 0, tm_hour = 0, tm_mday = dec_value [d1, d2],
             tm_mon = dec_value [m1, m2] - 1, tm_year = dec_value [y1, y2, y3, y4] - 1900\<rparr>"
    by (rule parseISO_digits)
qed

lemmas stoi_eval = stoi_def isspace_def dec_value_def digit_of_def substr_def

text \<open>
  C6 as stated fails: on a string of length 10 whose parts are not numeric the call
  throws.
\<close>

theorem parseISO_counterexample:
  "10 \<le> length ''abcd-ef-gh'' \<and> parseISO ''abcd-ef-gh'' = Inl (invalid_argument ''stoi'')"
  by (simp add: parseISO_def stoi_eval)

theorem parseISO_outcomes_witness:
  "parseISO ''2025-1-1'' = Inr \<lparr>tm_sec = 0, tm_min = 0, tm_hour = 0, tm_mday = 0, tm_mon = 0, tm_year = 0\<rparr> \<and>
   parseISO ''2025-10-30'' = Inr \<lparr>tm_sec = 0, tm_min = 0, tm_hour = 0, tm_mday = 30, tm_mon = 9, tm_year = 125\<rparr> \<and>
   parseISO '' -7x+12+3z'' = Inr \<lparr>tm_sec = 0, tm_min = 0, tm_hour = 0, tm_mday = 3, tm_mon = 11, tm_year = - 1907\<rparr> \<and>
   parseISO ''2025-xx-30'' = Inl (invalid_argument ''stoi'')"
proof -
  have a: "length ''2025-1-1'' < 10" "10 \<le> length '' -7x+12+3z''" "10 \<le> length ''2025-xx-30''"
    by simp_all
  have b: "has_number (substr '' -7x+12+3z'' 0 4) \<and> has_number (substr '' -7x+12+3z'' 5 2) \<and>
      has_number (substr '' -7x+12+3z'' 8 2)"
    by (simp add: has_number_def substr_def isspace_def)
  have c: "leading_number (substr '' -7x+12+3z'' 0 4) = - 7" "leading_number (substr '' -7x+12+3z'' 5 2) = 12"
    "leading_number (substr '' -7x+12+3z'' 8 2) = 3"
    by (simp_all add: leading_number_def substr_def isspace_def dec_value_def digit_of_def)
  have d: "\<not> has_number (substr ''2025-xx-30'' 5 2)"
    by (simp add: has_number_def substr_def isspace_def)
  have e: "list_all isdigit ''20251030''"
    by simp
  have f: "dec_value ''2025'' = 2025" "dec_value ''10'' = 10" "dec_value ''30'' = 30"
    by (simp_all add: dec_value_def digit_of_def)
  have g: "''2025-10-30'' = [CHR ''2'', CHR ''0'', CHR ''2'', CHR ''5'', CHR ''-'', CHR ''1'', CHR ''0'', CHR ''-'',
      CHR ''3'', CHR ''0''] @ []"
    by simp
  show ?thesis
    using parseISO_outcomes [of "''2025-1-1''"]
      parseISO_outcomes [of "'' -7x+12+3z''"]
      parseISO_outcomes [of "''2025-xx-30''"]
      parseISO_outcomes [of _ "CHR ''2''" "CHR ''0''" "CHR ''2''" "CHR ''5''" "CHR ''1''" "CHR ''0''" "CHR ''3''" "CHR ''0''"
        "CHR ''-''" "CHR ''-''" "[]"]
      a b c d e f
    by simp
qed

subsection \<open>The recent shifts\<close>

lemma parseISO_midnight: "parseISO ymd = Inr t \<Longrightarrow> tm_hour t = 0 \<and> tm_min t = 0 \<and> tm_sec t = 0"
  by (auto simp: parseISO_def split: if_splits sum.splits)

lemma shift_time_midnight: "shift_time s = 86400 * utc_day (shift_time s)"
proof (cases "parseISO (date s)")
  case (Inl e)
  then show ?thesis
    by (simp add: shift_time_def utc_day_def)
next
  case (Inr t)
  with parseISO_midnight [OF Inr] show ?thesis
    by (simp add: shift_time_def utc_day_def utc_timegm_def Let_def)
qed

lemma at_or_after_midnight:
  "now \<le> 86400 * d \<longleftrightarrow> utc_day now < d \<or> (d = utc_day now \<and> now mod 86400 = 0)"
proof -
  define q where "q = now div 86400"
  define r where "r = now mod 86400"
  have now: "now = 86400 * q + r"
    unfolding q_def r_def by simp
  have r: "0 \<le> r" "r < 86400"
    unfolding r_def by simp_all
  consider "q < d" | "q = d" | "d < q"
    by linarith
  then have "now \<le> 86400 * d \<longleftrightarrow> q < d \<or> (d = q \<and> r = 0)"
  proof cases
    case 1
    then show ?thesis using now r by linarith
  next
    case 2
    then show ?thesis using now r by auto
  next
    case 3
    then show ?thesis using now r by linarith
  qed
  then show ?thesis
    unfolding utc_day_def q_def r_def .
qed

lemma copy_if_recent_filter:
  "list_all (\<lambda>s. \<not> isl (parseISO (date s))) ss \<Longrightarrow>
     copy_if_recent cutoff ss out = Inr (out @ filter (\<lambda>s. cutoff \<le> shift_time s) ss)"
proof (induction ss arbitrary: out)
  case Nil
  then show ?case by simp
next
  case (Cons s ss)
  then obtain t where t: "parseISO (date s) = Inr t"
    by (cases "parseISO (date s)") simp_all
  with Cons show ?case
    by (simp add: shift_time_def)
qed

text \<open>
  C2 (as amended). For a fixed clock value \<open>now\<close> and a collection whose dates parse,
  \<open>filterRecentDays(0)\<close> returns, in their order, exactly the shifts whose date as
  midnight UTC is at or after \<open>now\<close>: every shift dated on a later UTC day than \<open>now\<close>,
  and the shifts dated today only when \<open>now\<close> is itself midnight UTC. No shift dated
  before today is returned.
\<close>

theorem filterRecentDays_0:
  assumes "list_all (\<lambda>s. \<not> isl (parseISO (date s))) (shifts t)"
  shows "filterRecentDays now t 0 =
    Inr (filter (\<lambda>s. utc_day now < utc_day (shift_time s) \<or>
                      (utc_day (shift_time s) = utc_day now \<and> now mod 86400 = 0)) (shifts t))"
proof -
  have "filterRecentDays now t 0 = Inr (filter (\<lambda>s. now \<le> shift_time s) (shifts t))"
    using copy_if_recent_filter [OF assms, of now "[]"] by (simp add: filterRecentDays_def)
  moreover have "now \<le> shift_time s \<longleftrightarrow>
      utc_day now < utc_day (shift_time s) \<or> (utc_day (shift_time s) = utc_day now \<and> now mod 86400 = 0)" for s
    using at_or_after_midnight [of now "utc_day (shift_time s)"] shift_time_midnight [of s] by simp
  ultimately show ?thesis
    by simp
qed

lemma parseISO_2025_10_29:
  "parseISO ''2025-10-29'' = Inr \<lparr>tm_sec = 0, tm_min = 0, tm_hour = 0, tm_mday = 29, tm_mon = 9, tm_year = 125\<rparr>"
  by (simp add: parseISO_def stoi_eval)

lemma parseISO_2025_10_30:
  "parseISO ''2025-10-30'' = Inr \<lparr>tm_sec = 0, tm_min = 0, tm_hour = 0, tm_mday = 30, tm_mon = 9, tm_year = 125\<rparr>"
  by (simp add: parseISO_def stoi_eval)

lemma parseISO_2025_10_31:
  "parseISO ''2025-10-31'' = Inr \<lparr>tm_sec = 0, tm_min = 0, tm_hour = 0, tm_mday = 31, tm_mon = 9, tm_year = 125\<rparr>"
  by (simp add: parseISO_def stoi_eval)

lemma utc_timegm_2025_10:
  "utc_timegm \<lparr>tm_sec = 0, tm_min = 0, tm_hour = 0, tm_mday = d, tm_mon = 9, tm_year = 125\<rparr> =
     (20361 + d) * 86400"
  by (simp add: utc_timegm_def days_from_civil_def)

lemmas dates_2025_10 = parseISO_2025_10_29 parseISO_2025_10_30 parseISO_2025_10_31 utc_timegm_2025_10

text \<open>
  C2 as stated fails: at noon UTC of 2025-10-30 the shift dated 2025-10-30 is left out
  and the shift dated 2025-10-31 is returned.
\<close>

theorem filterRecentDays_0_counterexample:
  "utc_day (shift_time \<lparr>date = ''2025-10-30'', hours = 4, hourlyRate = 10, note = ''today''\<rparr>) = utc_day 1761825600 \<and>
   utc_day (shift_time \<lparr>date = ''2025-10-31'', hours = 6, hourlyRate = 10, note = ''tomorrow''\<rparr>) \<noteq> utc_day 1761825600 \<and>
   filterRecentDays 1761825600
     \<lparr>shifts = [\<lparr>date = ''2025-10-30'', hours = 4, hourlyRate = 10, note = ''today''\<rparr>,
                \<lparr>date = ''2025-10-31'', hours = 6, hourlyRate = 10, note = ''tomorrow''\<rparr>],
      storage = FileStorage stod_dec ostream_double ''data/shifts.csv''\<rparr> 0 =
     Inr [\<lparr>date = ''2025-10-31'', hours = 6, hourlyRate = 10, note = ''tomorrow''\<rparr>]"
  by (simp add: shift_time_def utc_day_def filterRecentDays_def dates_2025_10)

theorem filterRecentDays_0_witness:
  "filterRecentDays 1761825600
     \<lparr>shifts = [\<lparr>date = ''2025-10-29'', hours = 4, hourlyRate = 10, note = ''yesterday''\<rparr>,
                \<lparr>date = ''2025-10-30'', hours = 4, hourlyRate = 10, note = ''today''\<rparr>,
                \<lparr>date = ''2025-10-31'', hours = 6, hourlyRate = 10, note = ''tomorrow''\<rparr>],
      storage = FileStorage stod_dec ostream_double ''data/shifts.csv''\<rparr> 0 =
     Inr [\<lparr>date = ''2025-10-31'', hours = 6, hourlyRate = 10, note = ''tomorrow''\<rparr>] \<and>
   filterRecentDays 1761782400
     \<lparr>shifts = [\<lparr>date = ''2025-10-29'', hours = 4, hourlyRate = 10, note = ''yesterday''\<rparr>,
                \<lparr>date = ''2025-10-30'', hours = 4, hourlyRate = 10, note = ''today''\<rparr>,
                \<lparr>date = ''2025-10-31'', hours = 6, hourlyRate = 10, note = ''tomorrow''\<rparr>],
      storage = FileStorage stod_dec ostream_double ''data/shifts.csv''\<rparr> 0 =
     Inr [\<lparr>date = ''2025-10-30'', hours = 4, hourlyRate = 10, note = ''today''\<rparr>,
          \<lparr>date = ''2025-10-31'', hours = 6, hourlyRate = 10, note = ''tomorrow''\<rparr>]"
proof -
  let ?t = "\<lparr>shifts = [\<lparr>date = ''2025-10-29'', hours = 4, hourlyRate = 10, note = ''yesterday''\<rparr>,
                \<lparr>date = ''2025-10-30'', hours = 4, hourlyRate = 10, note = ''today''\<rparr>,
                \<lparr>date = ''2025-10-31'', hours = 6, hourlyRate = 10, note = ''tomorrow''\<rparr>],
      storage = FileStorage stod_dec ostream_double ''data/shifts.csv''\<rparr>"
  have parse: "list_all (\<lambda>s. \<not> isl (parseISO (date s))) (shifts ?t)"
    by (simp add: dates_2025_10)
  show ?thesis
    using filterRecentDays_0 [OF parse, of 1761825600] filterRecentDays_0 [OF parse, of 1761782400]
    by (simp add: shift_time_def utc_day_def dates_2025_10)
qed

subsection \<open>The sorted listing\<close>

text \<open>The insertion of one value, and of one value after the other.\<close>

lemma insert_back_Nil: "insert_back cmp v [] = [v]"
  by (simp add: insert_back_def)

lemma insert_back_snoc:
  "insert_back cmp v (p @ [y]) = (if cmp v y then insert_back cmp v p @ [y] else p @ [y, v])"
  by (simp add: insert_back_def)

lemma length_insert_back: "length (insert_back cmp v p) = Suc (length p)"
  by (induction p rule: rev_induct) (simp_all add: insert_back_Nil insert_back_snoc)

lemma mset_insert_back: "mset (insert_back cmp v p) = add_mset v (mset p)"
  by (induction p rule: rev_induct) (simp_all add: insert_back_Nil insert_back_snoc)

lemma set_insert_back: "set (insert_back cmp v p) = insert v (set p)"
  using mset_insert_back [of cmp v p, THEN arg_cong, of set_mset] by simp

lemma filter_insert_back:
  "filter (\<lambda>x. f x = k) (insert_back (\<lambda>a b. f a < f b) v p) = filter (\<lambda>x. f x = k) (p @ [v])"
  for f :: "'a \<Rightarrow> 'k::linorder"
  by (induction p rule: rev_induct) (auto simp: insert_back_Nil insert_back_snoc)

lemma sorted_insert_back:
  fixes f :: "'a \<Rightarrow> 'k::linorder"
  assumes "sorted (map f p)"
  shows "sorted (map f (insert_back (\<lambda>a b. f a < f b) v p))"
  using assms
proof (induction p rule: rev_induct)
  case Nil
  then show ?case
    by (simp add: insert_back_Nil)
next
  case (snoc y p)
  from snoc.prems have p: "sorted (map f p)" and y: "\<forall>x\<in>set p. f x \<le> f y"
    by (auto simp: sorted_append)
  show ?case
  proof (cases "f v < f y")
    case True
    with snoc.IH [OF p] y show ?thesis
      by (auto simp: insert_back_snoc sorted_append set_insert_back)
  next
    case False
    with snoc.prems y show ?thesis
      by (auto simp: insert_back_snoc sorted_append)
  qed
qed

lemma insert_back_front:
  fixes f :: "'a \<Rightarrow> 'k::linorder"
  assumes "\<forall>x\<in>set p. f v < f x"
  shows "insert_back (\<lambda>a b. f a < f b) v p = v # p"
  using assms by (induction p rule: rev_induct) (simp_all add: insert_back_Nil insert_back_snoc)

lemma drop_update_here:
  assumes "i < length xs"
  shows "drop i (xs[i := y]) = y # drop (Suc i) xs"
proof -
  have "drop i (xs[i := y]) = (drop i xs)[0 := y]"
    by (simp add: drop_update_swap)
  also have "drop i xs = xs ! i # drop (Suc i) xs"
    using assms by (simp add: Cons_nth_drop_Suc)
  finally show ?thesis
    by simp
qed

lemma unguarded_linear_insert_loop_insert_back:
  "i < length xs \<Longrightarrow>
     unguarded_linear_insert_loop cmp v i xs = insert_back cmp v (take i xs) @ drop (Suc i) xs"
proof (induction i arbitrary: xs)
  case 0
  then show ?case
    by (subst unguarded_linear_insert_loop.simps) (simp add: insert_back_Nil upd_conv_take_nth_drop)
next
  case (Suc j)
  have t: "take (Suc j) xs = take j xs @ [xs ! j]"
    using Suc.prems by (simp add: take_Suc_conv_app_nth)
  show ?case
  proof (cases "cmp v (xs ! j)")
    case True
    let ?xs = "xs[Suc j := xs ! j]"
    have "unguarded_linear_insert_loop cmp v (Suc j) xs = unguarded_linear_insert_loop cmp v j ?xs"
      using True by (subst unguarded_linear_insert_loop.simps) simp
    also have "\<dots> = insert_back cmp v (take j ?xs) @ drop (Suc j) ?xs"
      using Suc.prems by (intro Suc.IH) simp
    also have "take j ?xs = take j xs"
      by simp
    also have "drop (Suc j) ?xs = xs ! j # drop (Suc (Suc j)) xs"
      using Suc.prems by (rule drop_update_here)
    finally show ?thesis
      using True by (simp add: t insert_back_snoc)
  next
    case False
    have "unguarded_linear_insert_loop cmp v (Suc j) xs = xs[Suc j := v]"
      using False by (subst unguarded_linear_insert_loop.simps) simp
    also have "\<dots> = take (Suc j) xs @ v # drop (Suc (Suc j)) xs"
      using Suc.prems by (rule upd_conv_take_nth_drop)
    finally show ?thesis
      using False by (simp add: t insert_back_snoc)
  qed
qed

lemma insertion_sorted_Nil: "insertion_sorted cmp p [] = p"
  by (simp add: insertion_sorted_def)

lemma insertion_sorted_Cons: "insertion_sorted cmp p (v # vs) = insertion_sorted cmp (insert_back cmp v p) vs"
  by (simp add: insertion_sorted_def)

lemma insertion_sorted_append:
  "insertion_sorted cmp p (us @ vs) = insertion_sorted cmp (insertion_sorted cmp p us) vs"
  by (simp add: insertion_sorted_def)

lemma length_insertion_sorted: "length (insertion_sorted cmp p vs) = length p + length vs"
  by (induction vs arbitrary: p) (simp_all add: insertion_sorted_Nil insertion_sorted_Cons length_insert_back)

lemma mset_insertion_sorted: "mset (insertion_sorted cmp p vs) = mset p + mset vs"
  by (induction vs arbitrary: p) (simp_all add: insertion_sorted_Nil insertion_sorted_Cons mset_insert_back)

lemma sorted_insertion_sorted:
  fixes f :: "'a \<Rightarrow> 'k::linorder"
  shows "sorted (map f p) \<Longrightarrow> sorted (map f (insertion_sorted (\<lambda>a b. f a < f b) p vs))"
  by (induction vs arbitrary: p) (simp_all add: insertion_sorted_Nil insertion_sorted_Cons sorted_insert_back)

lemma filter_insertion_sorted:
  fixes f :: "'a \<Rightarrow> 'k::linorder"
  shows "filter (\<lambda>x. f x = k) (insertion_sorted (\<lambda>a b. f a < f b) p vs) = filter (\<lambda>x. f x = k) (p @ vs)"
proof (induction vs arbitrary: p)
  case Nil
  then show ?case
    by (simp add: insertion_sorted_Nil)
next
  case (Cons v vs)
  show ?case
    unfolding insertion_sorted_Cons Cons.IH filter_append filter_insert_back by simp
qed

lemma insertion_step:
  fixes f :: "'a \<Rightarrow> 'k::linorder"
  assumes "0 < i" and "i < length xs" and "sorted (map f (take i xs))"
  shows "(if f (xs ! i) < f (xs ! 0)
          then (let v = xs ! i in (move_backward 0 i (i + 1) xs)[0 := v])
          else unguarded_linear_insert (\<lambda>a b. f a < f b) i xs) =
         insert_back (\<lambda>a b. f a < f b) (xs ! i) (take i xs) @ drop (Suc i) xs"
proof (cases "f (xs ! i) < f (xs ! 0)")
  case True
  obtain x xs' where xs: "xs = x # xs'"
    using assms(2) by (cases xs) simp_all
  obtain j where j: "i = Suc j"
    using assms(1) by (cases i) simp_all
  have "\<forall>y\<in>set (take i xs). f x \<le> f y"
    using assms(3) unfolding xs j by auto
  with True have "\<forall>y\<in>set (take i xs). f (xs ! i) < f y"
    unfolding xs by auto
  then have "insert_back (\<lambda>a b. f a < f b) (xs ! i) (take i xs) = xs ! i # take i xs"
    by (rule insert_back_front)
  moreover have "(move_backward 0 i (i + 1) xs)[0 := xs ! i] = xs ! i # take i xs @ drop (Suc i) xs"
    unfolding move_backward_def xs by simp
  ultimately show ?thesis
    using True by simp
next
  case False
  then show ?thesis
    using unguarded_linear_insert_loop_insert_back [OF assms(2), of "\<lambda>a b. f a < f b" "xs ! i"]
    by (simp add: unguarded_linear_insert_def)
qed

lemma insertion_sort_loop_insertion_sorted:
  fixes f :: "'a \<Rightarrow> 'k::linorder"
  assumes "0 < i" and "i \<le> n" and "n \<le> length xs" and "sorted (map f (take i xs))"
  shows "insertion_sort_loop (\<lambda>a b. f a < f b) 0 i n xs =
    insertion_sorted (\<lambda>a b. f a < f b) (take i xs) (take (n - i) (drop i xs)) @ drop n xs"
  using assms
proof (induction "n - i" arbitrary: i xs)
  case 0
  then have "i = n"
    by simp
  then show ?case
    by (subst insertion_sort_loop.simps) (simp add: insertion_sorted_Nil)
next
  case (Suc d)
  let ?cmp = "\<lambda>a b. f a < f b"
  let ?p = "insert_back ?cmp (xs ! i) (take i xs)"
  let ?xs = "?p @ drop (Suc i) xs"
  from Suc.hyps(2) Suc.prems have i: "i < n" "i < length xs"
    by simp_all
  have len_p: "length ?p = Suc i"
    using i by (simp add: length_insert_back)
  have len: "length ?xs = length xs"
    using i len_p by simp
  have tk: "take (Suc i) ?xs = ?p"
    using len_p by simp
  have dr: "drop (Suc i) ?xs = drop (Suc i) xs"
    using len_p by simp
  have drn: "drop n ?xs = drop n xs"
  proof -
    have "drop n ?xs = drop (n - Suc i) (drop (Suc i) xs)"
      using i by (simp add: len_p)
    also have "\<dots> = drop n xs"
      using i by simp
    finally show ?thesis .
  qed
  have "insertion_sort_loop ?cmp 0 i n xs = insertion_sort_loop ?cmp 0 (i + 1) n ?xs"
    using i insertion_step [OF Suc.prems(1) i(2) Suc.prems(4)]
    by (subst insertion_sort_loop.simps) (simp only: if_True)
  also have "\<dots> = insertion_sorted ?cmp (take (i + 1) ?xs) (take (n - (i + 1)) (drop (i + 1) ?xs)) @ drop n ?xs"
  proof (rule Suc.hyps(1))
    show "d = n - (i + 1)"
      using Suc.hyps(2) by simp
    show "0 < i + 1" "i + 1 \<le> n"
      using i by simp_all
    show "n \<le> length ?xs"
      using Suc.prems(3) len by simp
    show "sorted (map f (take (i + 1) ?xs))"
      using tk sorted_insert_back [OF Suc.prems(4)] by simp
  qed
  also have "\<dots> = insertion_sorted ?cmp ?p (take (n - Suc i) (drop (Suc i) xs)) @ drop n xs"
    using tk dr drn by simp
  also have "insertion_sorted ?cmp ?p (take (n - Suc i) (drop (Suc i) xs)) =
      insertion_sorted ?cmp (take i xs) (xs ! i # take (n - Suc i) (drop (Suc i) xs))"
    by (simp add: insertion_sorted_Cons)
  also have "xs ! i # take (n - Suc i) (drop (Suc i) xs) = take (n - i) (drop i xs)"
  proof -
    have "drop i xs = xs ! i # drop (Suc i) xs"
      using i by (simp add: Cons_nth_drop_Suc)
    moreover have "n - i = Suc (n - Suc i)"
      using i by simp
    ultimately show ?thesis
      by simp
  qed
  finally show ?case .
qed

lemma unguarded_insertion_sort_insertion_sorted:
  assumes "i \<le> n" and "n \<le> length xs"
  shows "unguarded_insertion_sort cmp i n xs =
    insertion_sorted cmp (take i xs) (take (n - i) (drop i xs)) @ drop n xs"
  using assms
proof (induction "n - i" arbitrary: i xs)
  case 0
  then have "i = n"
    by simp
  then show ?case
    by (subst unguarded_insertion_sort.simps) (simp add: insertion_sorted_Nil)
next
  case (Suc d)
  let ?p = "insert_back cmp (xs ! i) (take i xs)"
  let ?xs = "?p @ drop (Suc i) xs"
  from Suc.hyps(2) Suc.prems have i: "i < n" "i < length xs"
    by simp_all
  have len_p: "length ?p = Suc i"
    using i by (simp add: length_insert_back)
  have len: "length ?xs = length xs"
    using i len_p by simp
  have tk: "take (Suc i) ?xs = ?p"
    using len_p by simp
  have dr: "drop (Suc i) ?xs = drop (Suc i) xs"
    using len_p by simp
  have drn: "drop n ?xs = drop n xs"
  proof -
    have "drop n ?xs = drop (n - Suc i) (drop (Suc i) xs)"
      using i by (simp add: len_p)
    also have "\<dots> = drop n xs"
      using i by simp
    finally show ?thesis .
  qed
  have "unguarded_insertion_sort cmp i n xs = unguarded_insertion_sort cmp (i + 1) n ?xs"
    using i unguarded_linear_insert_loop_insert_back [OF i(2), of cmp "xs ! i"]
    by (subst unguarded_insertion_sort.simps) (simp add: unguarded_linear_insert_def)
  also have "\<dots> = insertion_sorted cmp (take (i + 1) ?xs) (take (n - (i + 1)) (drop (i + 1) ?xs)) @ drop n ?xs"
  proof (rule Suc.hyps(1))
    show "d = n - (i + 1)"
      using Suc.hyps(2) by simp
    show "i + 1 \<le> n"
      using i by simp
    show "n \<le> length ?xs"
      using Suc.prems(2) len by simp
  qed
  also have "\<dots> = insertion_sorted cmp ?p (take (n - Suc i) (drop (Suc i) xs)) @ drop n xs"
    using tk dr drn by simp
  also have "insertion_sorted cmp ?p (take (n - Suc i) (drop (Suc i) xs)) =
      insertion_sorted cmp (take i xs) (xs ! i # take (n - Suc i) (drop (Suc i) xs))"
    by (simp add: insertion_sorted_Cons)
  also have "xs ! i # take (n - Suc i) (drop (Suc i) xs) = take (n - i) (drop i xs)"
  proof -
    have "drop i xs = xs ! i # drop (Suc i) xs"
      using i by (simp add: Cons_nth_drop_Suc)
    moreover have "n - i = Suc (n - Suc i)"
      using i by simp
    ultimately show ?thesis
      by simp
  qed
  finally show ?case .
qed

lemma insertion_sort_insertion_sorted:
  fixes f :: "'a \<Rightarrow> 'k::linorder"
  assumes "m \<le> length xs"
  shows "insertion_sort (\<lambda>a b. f a < f b) 0 m xs =
    insertion_sorted (\<lambda>a b. f a < f b) [] (take m xs) @ drop m xs"
proof (cases m)
  case 0
  then show ?thesis
    by (simp add: insertion_sort_def insertion_sorted_Nil)
next
  case (Suc k)
  with assms obtain x xs' where xs: "xs = x # xs'"
    by (cases xs) simp_all
  have "insertion_sort (\<lambda>a b. f a < f b) 0 m xs = insertion_sort_loop (\<lambda>a b. f a < f b) 0 1 m xs"
    using Suc by (simp add: insertion_sort_def)
  also have "\<dots> = insertion_sorted (\<lambda>a b. f a < f b) (take 1 xs) (take (m - 1) (drop 1 xs)) @ drop m xs"
    using Suc assms by (intro insertion_sort_loop_insertion_sorted) (simp_all add: xs)
  also have "insertion_sorted (\<lambda>a b. f a < f b) (take 1 xs) (take (m - 1) (drop 1 xs)) =
      insertion_sorted (\<lambda>a b. f a < f b) [] (take m xs)"
    unfolding xs Suc by (simp add: insertion_sorted_Cons insert_back_Nil)
  finally show ?thesis .
qed

lemma final_insertion_sort_insertion_sorted:
  fixes f :: "'a \<Rightarrow> 'k::linorder"
  shows "final_insertion_sort (\<lambda>a b. f a < f b) 0 (length xs) xs = insertion_sorted (\<lambda>a b. f a < f b) [] xs"
proof (cases "16 < length xs")
  case False
  then show ?thesis
    using insertion_sort_insertion_sorted [of "length xs" xs f]
    by (simp add: final_insertion_sort_def)
next
  case True
  let ?cmp = "\<lambda>a b. f a < f b"
  let ?p = "insertion_sorted ?cmp [] (take 16 xs)"
  let ?ys = "?p @ drop 16 xs"
  have ys: "insertion_sort ?cmp 0 16 xs = ?ys"
    using True by (intro insertion_sort_insertion_sorted) simp
  have len_p: "length ?p = 16"
    using True by (simp add: length_insertion_sorted)
  have "unguarded_insertion_sort ?cmp 16 (length xs) ?ys =
      insertion_sorted ?cmp (take 16 ?ys) (take (length xs - 16) (drop 16 ?ys)) @ drop (length xs) ?ys"
    using True len_p by (intro unguarded_insertion_sort_insertion_sorted) simp_all
  also have "\<dots> = insertion_sorted ?cmp ?p (drop 16 xs)"
    using len_p True by simp
  also have "\<dots> = insertion_sorted ?cmp [] (take 16 xs @ drop 16 xs)"
    by (simp only: insertion_sorted_append)
  finally show ?thesis
    using True ys by (simp add: final_insertion_sort_def)
qed

text \<open>The introsort loop leaves a permutation of the array.\<close>

lemma length_iter_swap: "length (iter_swap i j xs) = length xs"
  by (simp add: iter_swap_def)

lemma mset_iter_swap: "i < length xs \<Longrightarrow> j < length xs \<Longrightarrow> mset (iter_swap i j xs) = mset xs"
  by (simp add: iter_swap_def mset_swap)

lemma length_move_median_to_first: "length (move_median_to_first cmp r a b c xs) = length xs"
  by (simp add: move_median_to_first_def length_iter_swap)

lemma mset_move_median_to_first:
  "r < length xs \<Longrightarrow> a < length xs \<Longrightarrow> b < length xs \<Longrightarrow> c < length xs \<Longrightarrow>
     mset (move_median_to_first cmp r a b c xs) = mset xs"
  by (simp add: move_median_to_first_def mset_iter_swap)

lemma scan_down_le: "scan_down cmp xs pivot l \<le> l"
  by (induction l) auto

lemma scan_up_le: "first \<le> length xs \<Longrightarrow> scan_up cmp xs pivot first \<le> length xs"
proof (induction cmp xs pivot first rule: scan_up.induct)
  case (1 cmp xs pivot first)
  then show ?case
    by (subst scan_up.simps) auto
qed

lemma unguarded_partition_perm:
  "lst \<le> length xs \<Longrightarrow> first \<le> length xs \<Longrightarrow>
     length (snd (unguarded_partition cmp first lst pivot xs)) = length xs \<and>
     mset (snd (unguarded_partition cmp first lst pivot xs)) = mset xs \<and>
     fst (unguarded_partition cmp first lst pivot xs) \<le> length xs"
proof (induction cmp first lst pivot xs rule: unguarded_partition.induct)
  case (1 cmp first lst pivot xs)
  define f where "f = scan_up cmp xs pivot first"
  define l where "l = scan_down cmp xs pivot (lst - 1)"
  have f: "f \<le> length xs"
    unfolding f_def using "1.prems"(2) by (rule scan_up_le)
  have l: "l \<le> lst - 1"
    unfolding l_def by (rule scan_down_le)
  show ?case
  proof (cases "f < l")
    case False
    then have "unguarded_partition cmp first lst pivot xs = (f, xs)"
      by (subst unguarded_partition.simps) (simp add: f_def l_def Let_def)
    with f show ?thesis
      by simp
  next
    case True
    then have eq: "unguarded_partition cmp first lst pivot xs =
        unguarded_partition cmp (f + 1) l pivot (iter_swap f l xs)"
      by (subst unguarded_partition.simps) (simp add: f_def l_def Let_def)
    have b: "f < length xs" "l < length xs"
      using True l "1.prems"(1) by simp_all
    have "length (snd (unguarded_partition cmp (f + 1) l pivot (iter_swap f l xs))) = length (iter_swap f l xs) \<and>
      mset (snd (unguarded_partition cmp (f + 1) l pivot (iter_swap f l xs))) = mset (iter_swap f l xs) \<and>
      fst (unguarded_partition cmp (f + 1) l pivot (iter_swap f l xs)) \<le> length (iter_swap f l xs)"
      using True b by (intro "1.IH" [OF f_def l_def]) (simp_all add: length_iter_swap)
    then show ?thesis
      unfolding eq using b by (simp add: length_iter_swap mset_iter_swap)
  qed
qed

lemma unguarded_partition_pivot_perm:
  assumes "16 < lst - first" and "lst \<le> length xs"
  shows "length (snd (unguarded_partition_pivot cmp first lst xs)) = length xs"
    and "mset (snd (unguarded_partition_pivot cmp first lst xs)) = mset xs"
    and "fst (unguarded_partition_pivot cmp first lst xs) \<le> length xs"
proof -
  let ?mid = "first + (lst - first) div 2"
  let ?xs = "move_median_to_first cmp first (first + 1) ?mid (lst - 1) xs"
  have len: "length ?xs = length xs"
    by (rule length_move_median_to_first)
  have ms: "mset ?xs = mset xs"
    using assms by (intro mset_move_median_to_first) simp_all
  have "length (snd (unguarded_partition cmp (first + 1) lst first ?xs)) = length ?xs \<and>
     mset (snd (unguarded_partition cmp (first + 1) lst first ?xs)) = mset ?xs \<and>
     fst (unguarded_partition cmp (first + 1) lst first ?xs) \<le> length ?xs"
    using assms by (intro unguarded_partition_perm) (simp_all add: length_move_median_to_first)
  then show "length (snd (unguarded_partition_pivot cmp first lst xs)) = length xs"
    and "mset (snd (unguarded_partition_pivot cmp first lst xs)) = mset xs"
    and "fst (unguarded_partition_pivot cmp first lst xs) \<le> length xs"
    using len ms by (simp_all add: unguarded_partition_pivot_def Let_def)
qed

lemma mset_update_update:
  assumes "i < length xs" and "j < length xs"
  shows "mset (xs[i := xs ! j, j := v]) = mset (xs[i := v])"
proof (cases "i = j")
  case True
  then show ?thesis
    by simp
next
  case False
  with assms show ?thesis
    by (simp add: mset_update nth_list_update)
qed

lemma push_heap_perm:
  "first + holeIndex < length xs \<Longrightarrow>
     length (push_heap cmp first holeIndex topIndex v xs) = length xs \<and>
     mset (push_heap cmp first holeIndex topIndex v xs) = mset (xs[first + holeIndex := v])"
proof (induction cmp first holeIndex topIndex v xs rule: push_heap.induct)
  case (1 cmp first holeIndex topIndex v xs)
  define parent where "parent = (holeIndex - 1) div 2"
  show ?case
  proof (cases "topIndex < holeIndex \<and> cmp (xs ! (first + parent)) v")
    case False
    then have "push_heap cmp first holeIndex topIndex v xs = xs[first + holeIndex := v]"
      by (subst push_heap.simps) (auto simp: parent_def Let_def)
    then show ?thesis
      by simp
  next
    case True
    let ?xs = "xs[first + holeIndex := xs ! (first + parent)]"
    have eq: "push_heap cmp first holeIndex topIndex v xs = push_heap cmp first parent topIndex v ?xs"
      using True by (subst push_heap.simps) (simp add: parent_def Let_def)
    have p: "parent \<le> holeIndex"
      unfolding parent_def by simp
    with "1.prems" have b: "first + parent < length xs"
      by simp
    have "length (push_heap cmp first parent topIndex v ?xs) = length ?xs \<and>
       mset (push_heap cmp first parent topIndex v ?xs) = mset (?xs[first + parent := v])"
      using True b by (intro "1.IH" [OF parent_def]) simp_all
    then show ?thesis
      unfolding eq using mset_update_update [OF "1.prems" b, of v] by simp
  qed
qed

lemma adjust_heap_down_perm:
  "first + len \<le> length xs \<Longrightarrow> holeIndex < len \<Longrightarrow>
     (case adjust_heap_down cmp first len holeIndex secondChild xs of
        (h, sc, ys) \<Rightarrow>
          length ys = length xs \<and> h < len \<and>
          mset (ys[first + h := v]) = mset (xs[first + holeIndex := v]))"
proof (induction cmp first len holeIndex secondChild xs rule: adjust_heap_down.induct)
  case (1 cmp first len holeIndex secondChild xs)
  show ?case
  proof (cases "secondChild < (len - 1) div 2")
    case False
    then have "adjust_heap_down cmp first len holeIndex secondChild xs = (holeIndex, secondChild, xs)"
      by (subst adjust_heap_down.simps) simp
    with "1.prems" show ?thesis
      by simp
  next
    case True
    define sc where "sc = 2 * (secondChild + 1)"
    define sc' where "sc' = (if cmp (xs ! (first + sc)) (xs ! (first + (sc - 1))) then sc - 1 else sc)"
    let ?xs = "xs[first + holeIndex := xs ! (first + sc')]"
    have eq: "adjust_heap_down cmp first len holeIndex secondChild xs =
        adjust_heap_down cmp first len sc' sc' ?xs"
      using True by (subst adjust_heap_down.simps) (simp add: sc_def sc'_def Let_def)
    have "sc < len"
      using True unfolding sc_def by presburger
    then have sc': "sc' < len"
      unfolding sc'_def by (simp add: less_imp_diff_less)
    have b: "first + holeIndex < length xs" "first + sc' < length xs"
      using "1.prems" sc' by simp_all
    have "(case adjust_heap_down cmp first len sc' sc' ?xs of
        (h, s, ys) \<Rightarrow>
          length ys = length ?xs \<and> h < len \<and>
          mset (ys[first + h := v]) = mset (?xs[first + sc' := v]))"
      using True "1.prems" sc' by (intro "1.IH" [OF True sc_def sc'_def]) simp_all
    then show ?thesis
      unfolding eq using mset_update_update [OF b, of v] by (simp split: prod.splits)
  qed
qed

lemma adjust_heap_perm:
  assumes "first + len \<le> length xs" and "holeIndex < len"
  shows "length (adjust_heap cmp first holeIndex len v xs) = length xs"
    and "mset (adjust_heap cmp first holeIndex len v xs) = mset (xs[first + holeIndex := v])"
proof -
  obtain h1 sc1 xs1 where d: "adjust_heap_down cmp first len holeIndex holeIndex xs = (h1, sc1, xs1)"
    by (cases "adjust_heap_down cmp first len holeIndex holeIndex xs")
  with adjust_heap_down_perm [OF assms, where cmp = cmp and secondChild = holeIndex and v = v]
  have 1: "length xs1 = length xs" "h1 < len" "mset (xs1[first + h1 := v]) = mset (xs[first + holeIndex := v])"
    by simp_all
  define h2 where "h2 = (if even len \<and> sc1 = (len - 2) div 2 then 2 * (sc1 + 1) - 1 else h1)"
  define xs2 where "xs2 = (if even len \<and> sc1 = (len - 2) div 2
      then xs1[first + h1 := xs1 ! (first + (2 * (sc1 + 1) - 1))] else xs1)"
  have eq: "adjust_heap cmp first holeIndex len v xs = push_heap cmp first h2 holeIndex v xs2"
    by (simp add: adjust_heap_def d Let_def h2_def xs2_def)
  have 2: "length xs2 = length xs" "h2 < len" "mset (xs2[first + h2 := v]) = mset (xs[first + holeIndex := v])"
  proof -
    show "length xs2 = length xs"
      by (simp add: xs2_def 1)
    show h2: "h2 < len"
    proof (cases "even len \<and> sc1 = (len - 2) div 2")
      case True
      then have "2 * (sc1 + 1) - 1 < len"
        using 1(2) by presburger
      moreover from True have "h2 = 2 * (sc1 + 1) - 1"
        unfolding h2_def by (rule if_P)
      ultimately show ?thesis
        by simp
    next
      case False
      then have "h2 = h1"
        unfolding h2_def by (rule if_not_P)
      with 1(2) show ?thesis
        by simp
    qed
    show "mset (xs2[first + h2 := v]) = mset (xs[first + holeIndex := v])"
    proof (cases "even len \<and> sc1 = (len - 2) div 2")
      case True
      have b: "first + h1 < length xs1" "first + h2 < length xs1"
        using 1(1,2) h2 assms(1) by simp_all
      from True have "h2 = 2 * (sc1 + 1) - 1"
        unfolding h2_def by (rule if_P)
      moreover from True have "xs2 = xs1[first + h1 := xs1 ! (first + (2 * (sc1 + 1) - 1))]"
        unfolding xs2_def by (rule if_P)
      ultimately have "xs2[first + h2 := v] = xs1[first + h1 := xs1 ! (first + h2), first + h2 := v]"
        by simp
      then show ?thesis
        using mset_update_update [OF b, of v] 1(3) by simp
    next
      case False
      then have "h2 = h1" "xs2 = xs1"
        unfolding h2_def xs2_def by (rule if_not_P)+
      with 1(3) show ?thesis
        by simp
    qed
  qed
  have "first + h2 < length xs2"
    using 2(1,2) assms(1) by simp
  from push_heap_perm [OF this, of cmp holeIndex v]
  show "length (adjust_heap cmp first holeIndex len v xs) = length xs"
    and "mset (adjust_heap cmp first holeIndex len v xs) = mset (xs[first + holeIndex := v])"
    unfolding eq using 2 by simp_all
qed

lemma make_heap_loop_perm:
  "first + len \<le> length xs \<Longrightarrow> parent < len \<Longrightarrow>
     length (make_heap_loop cmp first len parent xs) = length xs \<and>
     mset (make_heap_loop cmp first len parent xs) = mset xs"
proof (induction parent arbitrary: xs)
  case 0
  then show ?case
    using adjust_heap_perm [of first len xs 0 cmp "xs ! first"] by simp
next
  case (Suc parent)
  let ?xs = "adjust_heap cmp first (Suc parent) len (xs ! (first + Suc parent)) xs"
  have a: "length ?xs = length xs" "mset ?xs = mset xs"
    using adjust_heap_perm [OF Suc.prems, of cmp "xs ! (first + Suc parent)"] by simp_all
  have "length (make_heap_loop cmp first len parent ?xs) = length ?xs \<and>
     mset (make_heap_loop cmp first len parent ?xs) = mset ?xs"
    using Suc.prems a by (intro Suc.IH) simp_all
  with a show ?case
    by simp
qed

lemma make_heap_perm:
  assumes "first \<le> lst" and "lst \<le> length xs"
  shows "length (make_heap cmp first lst xs) = length xs \<and> mset (make_heap cmp first lst xs) = mset xs"
proof (cases "lst - first < 2")
  case True
  then show ?thesis
    by (simp add: make_heap_def)
next
  case False
  then have "(lst - first - 2) div 2 < lst - first"
    by simp
  moreover have "first + (lst - first) \<le> length xs"
    using assms by simp
  ultimately show ?thesis
    using False make_heap_loop_perm [of first "lst - first" xs "(lst - first - 2) div 2" cmp]
    by (simp add: make_heap_def Let_def)
qed

lemma pop_heap_perm:
  assumes "first < lst" and "lst \<le> length xs" and "result < length xs"
  shows "length (pop_heap cmp first lst result xs) = length xs \<and>
    mset (pop_heap cmp first lst result xs) = mset xs"
proof -
  let ?xs = "xs[result := xs ! first]"
  have "first + (lst - first) \<le> length ?xs" "0 < lst - first"
    using assms by simp_all
  from adjust_heap_perm [OF this, of cmp "xs ! result"]
  have "length (pop_heap cmp first lst result xs) = length xs"
    and "mset (pop_heap cmp first lst result xs) = mset (xs[result := xs ! first, first := xs ! result])"
    by (simp_all add: pop_heap_def Let_def)
  moreover have "mset (xs[result := xs ! first, first := xs ! result]) = mset xs"
    using assms by (intro mset_swap) simp_all
  ultimately show ?thesis
    by simp
qed

lemma heap_select_loop_perm:
  "first < middle \<Longrightarrow> middle \<le> length xs \<Longrightarrow> lst \<le> length xs \<Longrightarrow>
     length (heap_select_loop cmp first middle i lst xs) = length xs \<and>
     mset (heap_select_loop cmp first middle i lst xs) = mset xs"
proof (induction cmp first middle i lst xs rule: heap_select_loop.induct)
  case (1 cmp first middle i lst xs)
  show ?case
  proof (cases "i < lst")
    case False
    then show ?thesis
      by (subst (1 2) heap_select_loop.simps) simp
  next
    case True
    let ?xs = "if cmp (xs ! i) (xs ! first) then pop_heap cmp first middle i xs else xs"
    have a: "length ?xs = length xs \<and> mset ?xs = mset xs"
      using pop_heap_perm [of first middle xs i cmp] "1.prems" True by simp
    have "length (heap_select_loop cmp first middle (i + 1) lst ?xs) = length ?xs \<and>
       mset (heap_select_loop cmp first middle (i + 1) lst ?xs) = mset ?xs"
      using "1.prems" a by (intro "1.IH" [OF True]) simp_all
    with a True show ?thesis
      by (subst (1 2) heap_select_loop.simps) simp
  qed
qed

lemma sort_heap_perm:
  "lst \<le> length xs \<Longrightarrow>
     length (sort_heap cmp first lst xs) = length xs \<and> mset (sort_heap cmp first lst xs) = mset xs"
proof (induction cmp first lst xs rule: sort_heap.induct)
  case (1 cmp first lst xs)
  show ?case
  proof (cases "1 < lst - first")
    case False
    then show ?thesis
      by (subst (1 2) sort_heap.simps) simp
  next
    case True
    let ?xs = "pop_heap cmp first (lst - 1) (lst - 1) xs"
    have a: "length ?xs = length xs \<and> mset ?xs = mset xs"
      using True "1.prems" by (intro pop_heap_perm) simp_all
    have "length (sort_heap cmp first (lst - 1) ?xs) = length ?xs \<and>
       mset (sort_heap cmp first (lst - 1) ?xs) = mset ?xs"
      using "1.prems" a by (intro "1.IH" [OF True]) simp_all
    with a True show ?thesis
      by (subst (1 2) sort_heap.simps) simp
  qed
qed

lemma partial_sort_perm:
  assumes "first < lst" and "lst \<le> length xs"
  shows "length (partial_sort cmp first lst lst xs) = length xs \<and>
    mset (partial_sort cmp first lst lst xs) = mset xs"
proof -
  let ?h = "make_heap cmp first lst xs"
  have h: "length ?h = length xs \<and> mset ?h = mset xs"
    using assms by (intro make_heap_perm) simp_all
  let ?s = "heap_select_loop cmp first lst lst lst ?h"
  have s: "length ?s = length ?h \<and> mset ?s = mset ?h"
    using assms h by (intro heap_select_loop_perm) simp_all
  have "length (sort_heap cmp first lst ?s) = length ?s \<and> mset (sort_heap cmp first lst ?s) = mset ?s"
    using assms h s by (intro sort_heap_perm) simp_all
  with h s show ?thesis
    by (simp add: partial_sort_def heap_select_def)
qed

lemma introsort_loop_perm:
  "lst \<le> length xs \<Longrightarrow>
     length (introsort_loop cmp first lst depth_limit xs) = length xs \<and>
     mset (introsort_loop cmp first lst depth_limit xs) = mset xs"
proof (induction cmp first lst depth_limit xs rule: introsort_loop.induct)
  case (1 cmp first lst depth_limit xs)
  show ?case
  proof (cases "16 < lst - first")
    case False
    then show ?thesis
      by (subst (1 2) introsort_loop.simps) simp
  next
    case big: True
    show ?thesis
    proof (cases "depth_limit = 0")
      case True
      with big partial_sort_perm [of first lst xs cmp] "1.prems" show ?thesis
        by (subst (1 2) introsort_loop.simps) simp
    next
      case False
      obtain cutp xs1 where p: "unguarded_partition_pivot cmp first lst xs = (cutp, xs1)"
        by (cases "unguarded_partition_pivot cmp first lst xs")
      with unguarded_partition_pivot_perm [OF big "1.prems", of cmp]
      have 1: "length xs1 = length xs" "mset xs1 = mset xs" "cutp \<le> length xs"
        by simp_all
      let ?xs2 = "introsort_loop cmp cutp lst (depth_limit - 1) xs1"
      have 2: "length ?xs2 = length xs1 \<and> mset ?xs2 = mset xs1"
        using "1.prems" 1 by (intro "1.IH"(1) [OF big False p [symmetric]]) simp
      have 3: "length (introsort_loop cmp first cutp (depth_limit - 1) ?xs2) = length ?xs2 \<and>
          mset (introsort_loop cmp first cutp (depth_limit - 1) ?xs2) = mset ?xs2"
        using 1 2 by (intro "1.IH"(2) [OF big False p [symmetric]]) simp
      have "introsort_loop cmp first lst depth_limit xs =
          introsort_loop cmp first cutp (depth_limit - 1) ?xs2"
        using big False by (subst introsort_loop.simps) (simp add: p)
      with 1 2 3 show ?thesis
        by simp
    qed
  qed
qed

text \<open>
  The sort of a whole vector: the stable insertion sort of what the introsort loop
  leaves, which is the vector itself when it has no more than 16 elements.
\<close>

lemma std_sort_insertion_sorted:
  fixes f :: "'a \<Rightarrow> 'k::linorder"
  shows "std_sort (\<lambda>a b. f a < f b) xs =
    insertion_sorted (\<lambda>a b. f a < f b) []
      (introsort_loop (\<lambda>a b. f a < f b) 0 (length xs) (lg (length xs) * 2) xs)"
proof -
  let ?cmp = "\<lambda>a b. f a < f b"
  let ?ys = "introsort_loop ?cmp 0 (length xs) (lg (length xs) * 2) xs"
  have len: "length ?ys = length xs"
    using introsort_loop_perm [of "length xs" xs ?cmp 0 "lg (length xs) * 2"] by simp
  show ?thesis
  proof (cases "xs = []")
    case True
    then show ?thesis
      by (subst introsort_loop.simps) (simp add: std_sort_def insertion_sorted_Nil)
  next
    case False
    then have "std_sort ?cmp xs = final_insertion_sort ?cmp 0 (length ?ys) ?ys"
      by (simp add: std_sort_def len Let_def)
    then show ?thesis
      by (simp only: final_insertion_sort_insertion_sorted)
  qed
qed

lemma mset_std_sort:
  fixes f :: "'a \<Rightarrow> 'k::linorder"
  shows "mset (std_sort (\<lambda>a b. f a < f b) xs) = mset xs"
  using introsort_loop_perm [of "length xs" xs "\<lambda>a b. f a < f b" 0 "lg (length xs) * 2"]
  by (simp add: std_sort_insertion_sorted mset_insertion_sorted)

lemma sorted_std_sort:
  fixes f :: "'a \<Rightarrow> 'k::linorder"
  shows "sorted (map f (std_sort (\<lambda>a b. f a < f b) xs))"
  by (simp add: std_sort_insertion_sorted sorted_insertion_sorted)

lemma std_sort_small:
  fixes f :: "'a \<Rightarrow> 'k::linorder"
  assumes "length xs \<le> 16"
  shows "std_sort (\<lambda>a b. f a < f b) xs = insertion_sorted (\<lambda>a b. f a < f b) [] xs"
proof -
  have "introsort_loop (\<lambda>a b. f a < f b) 0 (length xs) (lg (length xs) * 2) xs = xs"
    using assms by (subst introsort_loop.simps) simp
  then show ?thesis
    by (simp add: std_sort_insertion_sorted)
qed

lemma filter_std_sort_small:
  fixes f :: "'a \<Rightarrow> 'k::linorder"
  assumes "length xs \<le> 16"
  shows "filter (\<lambda>x. f x = k) (std_sort (\<lambda>a b. f a < f b) xs) = filter (\<lambda>x. f x = k) xs"
  by (simp add: std_sort_small [OF assms] filter_insertion_sorted)

lemma insertion_sorted_sort_key:
  fixes f :: "'a \<Rightarrow> 'k::linorder"
  shows "insertion_sorted (\<lambda>a b. f a < f b) [] xs = sort_key f xs"
proof (rule properties_for_sort_key [symmetric])
  show "mset (insertion_sorted (\<lambda>a b. f a < f b) [] xs) = mset xs"
    by (simp add: mset_insertion_sorted)
  show "sorted (map f (insertion_sorted (\<lambda>a b. f a < f b) [] xs))"
    by (simp add: sorted_insertion_sorted)
  fix k
  have "filter (\<lambda>x. f x = f k) (insertion_sorted (\<lambda>a b. f a < f b) [] xs) = filter (\<lambda>x. f x = f k) xs"
    by (simp add: filter_insertion_sorted)
  then show "filter (\<lambda>x. f k = f x) (insertion_sorted (\<lambda>a b. f a < f b) [] xs) = filter (\<lambda>x. f k = f x) xs"
    by (simp add: eq_commute [of "f k"])
qed

lemma std_sort_small_sort_key:
  fixes f :: "'a \<Rightarrow> 'k::linorder"
  assumes "length xs \<le> 16"
  shows "std_sort (\<lambda>a b. f a < f b) xs = sort_key f xs"
  by (simp add: std_sort_small [OF assms] insertion_sorted_sort_key)

lemmas sort_eval = std_sort_def final_insertion_sort_def insertion_sort_def insertion_sort_loop.simps
  unguarded_insertion_sort.simps unguarded_linear_insert_def unguarded_linear_insert_loop.simps
  move_backward_def introsort_loop.simps unguarded_partition_pivot_def unguarded_partition.simps
  scan_up.simps move_median_to_first_def iter_swap_def lg.simps Let_def


text \<open>
  C4 (as amended). \<open>listAllSorted\<close> returns a copy of the collection, a permutation of
  it, in ascending lexicographic order of the date strings. For a collection of at
  most 16 shifts the sort is stable: the shifts of each date come in the result in the
  order they have in the collection.
\<close>

theorem listAllSorted_stable_to_16:
  "mset (listAllSorted t) = mset (shifts t) \<and> sorted (map date (listAllSorted t)) \<and>
   (length (shifts t) \<le> 16 \<longrightarrow>
      (\<forall>d. filter (\<lambda>s. date s = d) (listAllSorted t) = filter (\<lambda>s. date s = d) (shifts t)))"
  by (simp add: listAllSorted_def mset_std_sort sorted_std_sort filter_std_sort_small)

text \<open>
  C4 as stated fails from 17 shifts on: of these 17 shifts of one date, inserted in the
  order of their notes from a to q, the first of the result is the ninth inserted, and
  the first inserted comes tenth.
\<close>

theorem listAllSorted_unstable_counterexample:
  "listAllSorted
     \<lparr>shifts =
       [\<lparr>date = ''2025-01-10'', hours = 4, hourlyRate = 10, note = ''a''\<rparr>,
        \<lparr>date = ''2025-01-10'', hours = 4, hourlyRate = 10, note = ''b''\<rparr>,
        \<lparr>date = ''2025-01-10'', hours = 4, hourlyRate = 10, note = ''c''\<rparr>,
        \<lparr>date = ''2025-01-10'', hours = 4, hourlyRate = 10, note = ''d''\<rparr>,
        \<lparr>date = ''2025-01-10'', hours = 4, hourlyRate = 10, note = ''e''\<rparr>,
        \<lparr>date = ''2025-01-10'', hours = 4, hourlyRate = 10, note = ''f''\<rparr>,
        \<lparr>date = ''2025-01-10'', hours = 4, hourlyRate = 10, note = ''g''\<rparr>,
        \<lparr>date = ''2025-01-10'', hours = 4, hourlyRate = 10, note = ''h''\<rparr>,
        \<lparr>date = ''2025-01-10'', hours = 4, hourlyRate = 10, note = ''i''\<rparr>,
        \<lparr>date = ''2025-01-10'', hours = 4, hourlyRate = 10, note = ''j''\<rparr>,
        \<lparr>date = ''2025-01-10'', hours = 4, hourlyRate = 10, note = ''k''\<rparr>,
        \<lparr>date = ''2025-01-10'', hours = 4, hourlyRate = 10, note = ''l''\<rparr>,
        \<lparr>date = ''2025-01-10'', hours = 4, hourlyRate = 10, note = ''m''\<rparr>,
        \<lparr>date = ''2025-01-10'', hours = 4, hourlyRate = 10, note = ''n''\<rparr>,
        \<lparr>date = ''2025-01-10'', hours = 4, hourlyRate = 10, note = ''o''\<rparr>,
        \<lparr>date = ''2025-01-10'', hours = 4, hourlyRate = 10, note = ''p''\<rparr>,
        \<lparr>date = ''2025-01-10'', hours = 4, hourlyRate = 10, note = ''q''\<rparr>],
      storage = FileStorage stod_dec ostream_double ''data/shifts.csv''\<rparr> =
     [\<lparr>date = ''2025-01-10'', hours = 4, hourlyRate = 10, note = ''i''\<rparr>,
     \<lparr>date = ''2025-01-10'', hours = 4, hourlyRate = 10, note = ''q''\<rparr>,
     \<lparr>date = ''2025-01-10'', hours = 4, hourlyRate = 10, note = ''p''\<rparr>,
     \<lparr>date = ''2025-01-10'', hours = 4, hourlyRate = 10, note = ''o''\<rparr>,
     \<lparr>date = ''2025-01-10'', hours = 4, hourlyRate = 10, note = ''n''\<rparr>,
     \<lparr>date = ''2025-01-10'', hours = 4, hourlyRate = 10, note = ''m''\<rparr>,
     \<lparr>date = ''2025-01-10'', hours = 4, hourlyRate = 10, note = ''l''\<rparr>,
     \<lparr>date = ''2025-01-10'', hours = 4, hourlyRate = 10, note = ''k''\<rparr>,
     \<lparr>date = ''2025-01-10'', hours = 4, hourlyRate = 10, note = ''j''\<rparr>,
     \<lparr>date = ''2025-01-10'', hours = 4, hourlyRate = 10, note = ''a''\<rparr>,
     \<lparr>date = ''2025-01-10'', hours = 4, hourlyRate = 10, note = ''h''\<rparr>,
     \<lparr>date = ''2025-01-10'', hours = 4, hourlyRate = 10, note = ''g''\<rparr>,
     \<lparr>date = ''2025-01-10'', hours = 4, hourlyRate = 10, note = ''f''\<rparr>,
     \<lparr>date = ''2025-01-10'', hours = 4, hourlyRate = 10, note = ''e''\<rparr>,
     \<lparr>date = ''2025-01-10'', hours = 4, hourlyRate = 10, note = ''d''\<rparr>,
     \<lparr>date = ''2025-01-10'', hours = 4, hourlyRate = 10, note = ''c''\<rparr>,
     \<lparr>date = ''2025-01-10'', hours = 4, hourlyRate = 10, note = ''b''\<rparr>]"
  by (simp add: listAllSorted_def sort_eval)

text \<open>
  The example of the specification, three shifts: the two shifts dated 2025-01-10 keep
  their order and come before the one dated 2025-03-01.
\<close>

lemma listAllSorted_example:
  "listAllSorted
     \<lparr>shifts = [\<lparr>date = ''2025-03-01'', hours = 4, hourlyRate = 10, note = ''x''\<rparr>,
                \<lparr>date = ''2025-01-10'', hours = 4, hourlyRate = 10, note = ''first''\<rparr>,
                \<lparr>date = ''2025-01-10'', hours = 6, hourlyRate = 10, note = ''second''\<rparr>],
      storage = port\<rparr> =
     [\<lparr>date = ''2025-01-10'', hours = 4, hourlyRate = 10, note = ''first''\<rparr>,
      \<lparr>date = ''2025-01-10'', hours = 6, hourlyRate = 10, note = ''second''\<rparr>,
      \<lparr>date = ''2025-03-01'', hours = 4, hourlyRate = 10, note = ''x''\<rparr>]"
  by (simp add: listAllSorted_def sort_eval)

theorem listAllSorted_stable_to_16_witness:
  "mset (listAllSorted
     \<lparr>shifts = [\<lparr>date = ''2025-03-01'', hours = 4, hourlyRate = 10, note = ''x''\<rparr>,
                \<lparr>date = ''2025-01-10'', hours = 4, hourlyRate = 10, note = ''first''\<rparr>,
                \<lparr>date = ''2025-01-10'', hours = 6, hourlyRate = 10, note = ''second''\<rparr>],
      storage = FileStorage stod_dec ostream_double ''data/shifts.csv''\<rparr>) =
     mset [\<lparr>date = ''2025-03-01'', hours = 4, hourlyRate = 10, note = ''x''\<rparr>,
           \<lparr>date = ''2025-01-10'', hours = 4, hourlyRate = 10, note = ''first''\<rparr>,
           \<lparr>date = ''2025-01-10'', hours = 6, hourlyRate = 10, note = ''second''\<rparr>] \<and>
   sorted (map date (listAllSorted
     \<lparr>shifts = [\<lparr>date = ''2025-03-01'', hours = 4, hourlyRate = 10, note = ''x''\<rparr>,
                \<lparr>date = ''2025-01-10'', hours = 4, hourlyRate = 10, note = ''first''\<rparr>,
                \<lparr>date = ''2025-01-10'', hours = 6, hourlyRate = 10, note = ''second''\<rparr>],
      storage = FileStorage stod_dec ostream_double ''data/shifts.csv''\<rparr>)) \<and>
   filter (\<lambda>s. date s = ''2025-01-10'') (listAllSorted
     \<lparr>shifts = [\<lparr>date = ''2025-03-01'', hours = 4, hourlyRate = 10, note = ''x''\<rparr>,
                \<lparr>date = ''2025-01-10'', hours = 4, hourlyRate = 10, note = ''first''\<rparr>,
                \<lparr>date = ''2025-01-10'', hours = 6, hourlyRate = 10, note = ''second''\<rparr>],
      storage = FileStorage stod_dec ostream_double ''data/shifts.csv''\<rparr>) =
     [\<lparr>date = ''2025-01-10'', hours = 4, hourlyRate = 10, note = ''first''\<rparr>,
      \<lparr>date = ''2025-01-10'', hours = 6, hourlyRate = 10, note = ''second''\<rparr>]"
  using listAllSorted_stable_to_16
    [of "\<lparr>shifts = [\<lparr>date = ''2025-03-01'', hours = 4, hourlyRate = 10, note = ''x''\<rparr>,
                \<lparr>date = ''2025-01-10'', hours = 4, hourlyRate = 10, note = ''first''\<rparr>,
                \<lparr>date = ''2025-01-10'', hours = 6, hourlyRate = 10, note = ''second''\<rparr>],
      storage = FileStorage stod_dec ostream_double ''data/shifts.csv''\<rparr>"]
  by simp

subsection \<open>The queries leave the tracker alone\<close>

text \<open>Each query, run as a call: its value, and the state it leaves.\<close>

lemma Tracker_listAllSorted_call: "Tracker_listAllSorted (t, w) = (Inr (listAllSorted t), t, w)"
  by (simp add: Tracker_listAllSorted_def and_then_def this_shifts_def returns_def listAllSorted_def)

lemma Tracker_filterRecentDays_call:
  "Tracker_filterRecentDays now days (t, w) = (filterRecentDays now t days, t, w)"
  by (simp add: Tracker_filterRecentDays_def and_then_def this_shifts_def returns_def throws_def
      filterRecentDays_def Let_def split: sum.splits)

lemma Tracker_totalPay_call: "Tracker_totalPay v (t, w) = (Inr (totalPay v), t, w)"
  by (simp add: Tracker_totalPay_def returns_def totalPay_def)

lemma Tracker_monthlyTotals_call: "Tracker_monthlyTotals (t, w) = (Inr (monthlyTotals t), t, w)"
  by (simp add: Tracker_monthlyTotals_def and_then_def this_shifts_def returns_def monthlyTotals_def)

lemma Tracker_countHighPay_call:
  "Tracker_countHighPay threshold (t, w) = (Inr (countHighPay t threshold), t, w)"
  by (simp add: Tracker_countHighPay_def and_then_def this_shifts_def returns_def countHighPay_def)

lemma run_call: "run c (t, w) = (answer_of t c, t, w)"
  by (cases c)
    (simp_all add: answered_def Tracker_listAllSorted_call Tracker_filterRecentDays_call
      Tracker_totalPay_call Tracker_monthlyTotals_call Tracker_countHighPay_call split: sum.splits)

text \<open>
  \<open>add\<close>, run as a call in the same way, changes the collection and calls the port: it
  is the \<open>add\<close> of the section on adding a shift.
\<close>

lemma Tracker_add_call:
  "Tracker_add s (t, w) =
    (case add t s w of (None, t', w') \<Rightarrow> (Inr (), t', w') | (Some e, t', w') \<Rightarrow> (Inl e, t', w'))"
  by (simp add: Tracker_add_def and_then_def shifts_push_back_def this_shifts_def storage_save_def
      add_def Let_def split: prod.splits option.splits)

text \<open>
  C10. Every run of the queries \<open>listAllSorted\<close>, \<open>filterRecentDays\<close>, \<open>totalPay\<close>,
  \<open>monthlyTotals\<close> and \<open>countHighPay\<close> as calls on a tracker, one after the other,
  leaves the tracker, its collection with it, and the state behind its storage port as
  they were, and each call answers what the query yields on that unchanged tracker, a
  thrown exception included. The port is arbitrary: behind a port whose state counts
  the calls of \<open>load\<close> and \<open>save\<close> the count stays, so none is made.
\<close>

theorem queries_frame: "run_all cs (t, w) = (map (answer_of t) cs, t, w)"
  by (induction cs) (simp_all add: run_call)

text \<open>
  Behind a port that counts its calls: the constructor makes one call, \<open>add\<close> a second
  one and extends the collection, and the queries that follow leave the count at 2 and
  the collection as it is.
\<close>

theorem queries_frame_witness:
  "Tracker_new \<lparr>load = (\<lambda>n::nat. (Inr [], n + 1)), save = (\<lambda>v n. (None, n + 1))\<rparr> 0 =
     (Inr \<lparr>shifts = [], storage = \<lparr>load = (\<lambda>n::nat. (Inr [], n + 1)), save = (\<lambda>v n. (None, n + 1))\<rparr>\<rparr>, 1) \<and>
   Tracker_add \<lparr>date = ''2025-10-29'', hours = 5.5, hourlyRate = 12.5, note = ''a''\<rparr>
     (\<lparr>shifts = [], storage = \<lparr>load = (\<lambda>n::nat. (Inr [], n + 1)), save = (\<lambda>v n. (None, n + 1))\<rparr>\<rparr>, 1) =
     (Inr (),
      \<lparr>shifts = [\<lparr>date = ''2025-10-29'', hours = 5.5, hourlyRate = 12.5, note = ''a''\<rparr>],
        storage = \<lparr>load = (\<lambda>n::nat. (Inr [], n + 1)), save = (\<lambda>v n. (None, n + 1))\<rparr>\<rparr>, 2) \<and>
   run_all [CountHighPay 50, ListAllSorted, FilterRecentDays 1761825600 7, FilterRecentDays 1761825600 0,
            TotalPay [\<lparr>date = ''2025-10-29'', hours = 5.5, hourlyRate = 12.5, note = ''a''\<rparr>]]
     (\<lparr>shifts = [\<lparr>date = ''2025-10-29'', hours = 5.5, hourlyRate = 12.5, note = ''a''\<rparr>],
       storage = \<lparr>load = (\<lambda>n::nat. (Inr [], n + 1)), save = (\<lambda>v n. (None, n + 1))\<rparr>\<rparr>, 2) =
     ([Count 1, Shifts [\<lparr>date = ''2025-10-29'', hours = 5.5, hourlyRate = 12.5, note = ''a''\<rparr>],
       Shifts [\<lparr>date = ''2025-10-29'', hours = 5.5, hourlyRate = 12.5, note = ''a''\<rparr>], Shifts [],
       Amount 68.75],
      \<lparr>shifts = [\<lparr>date = ''2025-10-29'', hours = 5.5, hourlyRate = 12.5, note = ''a''\<rparr>],
        storage = \<lparr>load = (\<lambda>n::nat. (Inr [], n + 1)), save = (\<lambda>v n. (None, n + 1))\<rparr>\<rparr>, 2)"
proof -
  let ?a = "\<lparr>date = ''2025-10-29'', hours = 5.5, hourlyRate = 12.5, note = ''a''\<rparr>"
  let ?p = "\<lparr>load = (\<lambda>n::nat. (Inr [], n + 1)), save = (\<lambda>v n. (None, n + 1))\<rparr>"
  let ?t = "\<lparr>shifts = [?a], storage = ?p\<rparr>"
  have new: "Tracker_new ?p 0 = (Inr \<lparr>shifts = [], storage = ?p\<rparr>, 1)"
    by (simp add: Tracker_new_def)
  have add: "Tracker_add ?a (\<lparr>shifts = [], storage = ?p\<rparr>, 1) = (Inr (), ?t, 2)"
    by (simp add: Tracker_add_call add_def)
  have c: "countHighPay ?t 50 = 1"
    by (simp add: countHighPay_def pay_def)
  have l: "listAllSorted ?t = [?a]"
    by (simp add: listAllSorted_def sort_eval)
  have f: "filterRecentDays 1761825600 ?t 7 = Inr [?a]" "filterRecentDays 1761825600 ?t 0 = Inr []"
    by (simp_all add: filterRecentDays_def dates_2025_10)
  have p: "totalPay [?a] = 68.75"
    by (simp add: totalPay_def pay_def)
  have "run_all [CountHighPay 50, ListAllSorted, FilterRecentDays 1761825600 7, FilterRecentDays 1761825600 0,
            TotalPay [?a]] (?t, 2) =
     ([Count 1, Shifts [?a], Shifts [?a], Shifts [], Amount 68.75], ?t, 2)"
    unfolding queries_frame using c l f p by simp
  with new add show ?thesis
    by (simp only:)
qed

end
